theory Spec2Isabelle
  imports Complex_Main "HOL-Library.FSet" "HOL-Library.Sublist" "HOL-Library.AList"
begin

section \<open>Strings as the pipeline sees them\<close>

text \<open>
  The pipeline is Python 3 and works on \<open>str\<close> values.  A \<^typ>\<open>char\<close> of this theory is
  read as the Unicode code point of the same number, so a \<^typ>\<open>string\<close> is a Python string
  whose code points all lie below 256.  The character classes below are the ones Python
  uses on that range: \<open>str.isspace\<close> (also the class \<open>\s\<close> of \<open>re\<close> on a \<open>str\<close> pattern),
  \<open>str.lower\<close>, the class \<open>\w\<close> of \<open>re\<close>, and the line boundaries of \<open>str.splitlines\<close>.
\<close>

definition py_isspace :: "char \<Rightarrow> bool" where
  "py_isspace c = (let n = (of_char c :: nat) in
     (9 \<le> n \<and> n \<le> 13) \<or> (28 \<le> n \<and> n \<le> 32) \<or> n = 133 \<or> n = 160)"

definition lower_char :: "char \<Rightarrow> char" where
  "lower_char c = (let n = (of_char c :: nat) in
     if (65 \<le> n \<and> n \<le> 90) \<or> (192 \<le> n \<and> n \<le> 222 \<and> n \<noteq> 215)
     then char_of (n + 32) else c)"

definition py_isword :: "char \<Rightarrow> bool" where
  "py_isword c = (let n = (of_char c :: nat) in
     (48 \<le> n \<and> n \<le> 57) \<or> (65 \<le> n \<and> n \<le> 90) \<or> n = 95 \<or> (97 \<le> n \<and> n \<le> 122)
     \<or> n = 170 \<or> n = 178 \<or> n = 179 \<or> n = 181 \<or> n = 185 \<or> n = 186
     \<or> (188 \<le> n \<and> n \<le> 190) \<or> (192 \<le> n \<and> n \<le> 214) \<or> (216 \<le> n \<and> n \<le> 246)
     \<or> 248 \<le> n)"

definition is_linebreak :: "char \<Rightarrow> bool" where
  "is_linebreak c = (let n = (of_char c :: nat) in
     (10 \<le> n \<and> n \<le> 13) \<or> (28 \<le> n \<and> n \<le> 30) \<or> n = 133)"

text \<open>The class \<open>[a-z0-9]\<close>.\<close>

definition is_lower_alnum :: "char \<Rightarrow> bool" where
  "is_lower_alnum c = (let n = (of_char c :: nat) in
     (97 \<le> n \<and> n \<le> 122) \<or> (48 \<le> n \<and> n \<le> 57))"

definition str_lower :: "string \<Rightarrow> string" where
  "str_lower s = map lower_char s"

definition str_lstrip :: "string \<Rightarrow> string" where
  "str_lstrip s = dropWhile py_isspace s"

definition str_rstrip :: "string \<Rightarrow> string" where
  "str_rstrip s = rev (dropWhile py_isspace (rev s))"

definition str_strip :: "string \<Rightarrow> string" where
  "str_strip s = str_rstrip (str_lstrip s)"

text \<open>\<open>s.rstrip(chars)\<close> and \<open>s.lstrip(chars)\<close> with an explicit character set.\<close>

definition str_rstrip_chars :: "string \<Rightarrow> string \<Rightarrow> string" where
  "str_rstrip_chars chars s = rev (dropWhile (\<lambda>c. c \<in> set chars) (rev s))"

definition str_lstrip_chars :: "string \<Rightarrow> string \<Rightarrow> string" where
  "str_lstrip_chars chars s = dropWhile (\<lambda>c. c \<in> set chars) s"

text \<open>
  \<open>s.split()\<close> without arguments: a scan that closes the current word at every whitespace
  character and never yields an empty word.
\<close>

fun split_acc :: "string \<Rightarrow> string \<Rightarrow> string list" where
  "split_acc cur [] = (if cur = [] then [] else [cur])"
| "split_acc cur (c # cs) =
     (if py_isspace c
      then (if cur = [] then split_acc [] cs else cur # split_acc [] cs)
      else split_acc (cur @ [c]) cs)"

definition str_split :: "string \<Rightarrow> string list" where
  "str_split s = split_acc [] s"

text \<open>
  \<open>s.splitlines()\<close>: a line ends at a line boundary, \<open>\r\n\<close> counts as one boundary, and
  there is no empty last line.
\<close>

fun splitlines_acc :: "string \<Rightarrow> string \<Rightarrow> string list" where
  "splitlines_acc cur [] = (if cur = [] then [] else [cur])"
| "splitlines_acc cur (c # cs) =
     (if c = CHR 0x0D \<and> cs \<noteq> [] \<and> hd cs = CHR 0x0A then cur # splitlines_acc [] (tl cs)
      else if is_linebreak c then cur # splitlines_acc [] cs
      else splitlines_acc (cur @ [c]) cs)"

definition str_splitlines :: "string \<Rightarrow> string list" where
  "str_splitlines s = splitlines_acc [] s"

text \<open>\<open>p in s\<close> on strings: \<open>p\<close> occurs in \<open>s\<close> as a contiguous block.\<close>

fun str_contains :: "string \<Rightarrow> string \<Rightarrow> bool" where
  "str_contains p [] = (p = [])"
| "str_contains p (c # cs) = (prefix p (c # cs) \<or> str_contains p cs)"


section \<open>util.py\<close>

subsection \<open>normalize\_url\<close>

text \<open>
  \<open>re.sub(r"[?#].*$", "", u)\<close>.  Without flags the dot stops at a line feed and \<open>$\<close>
  holds at the end of the string or before a line feed that is its last character.  So
  the pattern matches at a \<open>?\<close> or \<open>#\<close> exactly when no line feed follows, or when the
  first line feed that follows is the last character; the match is removed.
\<close>

fun sub_query :: "string \<Rightarrow> string" where
  "sub_query [] = []"
| "sub_query (c # cs) =
     (if c = CHR ''?'' \<or> c = CHR ''#''
      then (let r = dropWhile (\<lambda>x. x \<noteq> CHR 0x0A) cs
            in if r = [] then []
               else if r = [CHR 0x0A] then [CHR 0x0A]
               else c # sub_query cs)
      else c # sub_query cs)"

definition normalize_url :: "string \<Rightarrow> string" where
  "normalize_url u = str_rstrip_chars ''/'' (sub_query (str_strip u))"

subsection \<open>simple\_tokens\<close>

text \<open>
  \<open>re.sub(r"[^a-z0-9\s]+", " ", s)\<close>: every maximal run of characters outside the class
  becomes one space.
\<close>

definition in_token_class :: "char \<Rightarrow> bool" where
  "in_token_class c = (is_lower_alnum c \<or> py_isspace c)"

function sub_non_token :: "string \<Rightarrow> string" where
  "sub_non_token [] = []"
| "sub_non_token (c # cs) =
     (if in_token_class c then c # sub_non_token cs
      else CHR '' '' # sub_non_token (dropWhile (\<lambda>x. \<not> in_token_class x) cs))"
  by pat_completeness auto
termination
  by (relation "measure length") (auto simp: length_dropWhile_le less_Suc_eq_le)

definition simple_tokens :: "string \<Rightarrow> string fset" where
  "simple_tokens s =
     fset_of_list (filter (\<lambda>p. p \<noteq> [] \<and> length p > 2)
                          (str_split (sub_non_token (str_lower s))))"

subsection \<open>jaccard\<close>

text \<open>
  Python computes \<open>inter / union\<close> on two \<open>int\<close>s as a \<open>float\<close>, the double nearest to the
  exact quotient.  The model returns the exact quotient as a rational.  The pipeline only
  compares a result with the literals \<open>0.78\<close> and \<open>0.05\<close> and with other results.  Rounding
  is monotone, and two different quotients of naturals (or a quotient and one of the two
  literals) can round to the same double only when a denominator exceeds \<open>2 ^ 26\<close>; on
  token sets of fewer than ten million elements the comparisons on rationals therefore
  decide as the ones on doubles do.
\<close>

definition jaccard :: "'a fset \<Rightarrow> 'a fset \<Rightarrow> rat" where
  "jaccard a b =
     (if a = {||} \<and> b = {||} then 1
      else if a = {||} \<or> b = {||} then 0
      else (let inter = fcard (a |\<inter>| b); union = fcard (a |\<union>| b)
            in if union \<noteq> 0 then of_nat inter / of_nat union else 0))"

subsection \<open>sanitize\_llm\_html\<close>

text \<open>
  A literal of a pattern compiled with the flag \<open>i\<close> matches a character of the range
  modelled here exactly when \<open>str.lower\<close> of the character is the (lower-case) literal.
\<close>

definition ci_prefix :: "string \<Rightarrow> string \<Rightarrow> bool" where
  "ci_prefix p s = prefix p (str_lower s)"

text \<open>
  \<open>\b\<close> behind the word character \<open>t\<close>: the string ends here or goes on with a
  character outside \<open>\w\<close>.
\<close>

definition word_boundary_after :: "string \<Rightarrow> bool" where
  "word_boundary_after r = (case r of [] \<Rightarrow> True | c # _ \<Rightarrow> \<not> py_isword c)"

text \<open>
  The pattern \<open>(?is)<\s*script\b\<close> tried at the start of a string; the result is what
  follows the match.  \<open>\s*\<close> takes the whole run of whitespace; giving part of it back
  cannot help, since the next literal is no whitespace.
\<close>

fun match_script_open :: "string \<Rightarrow> string option" where
  "match_script_open [] = None"
| "match_script_open (c # cs) =
     (if c = CHR ''<''
      then (let r = dropWhile py_isspace cs
            in if ci_prefix ''script'' r \<and> word_boundary_after (drop 6 r)
               then Some (drop 6 r) else None)
      else None)"

text \<open>\<open>re.sub(r"(?is)<\s*script\b", "&lt;script", s)\<close>: matches are taken from left to right.\<close>

function sanitize_llm_html :: "string \<Rightarrow> string" where
  "sanitize_llm_html [] = []"
| "sanitize_llm_html (c # cs) =
     (case match_script_open (c # cs) of
        Some r \<Rightarrow> ''&lt;script'' @ sanitize_llm_html r
      | None \<Rightarrow> c # sanitize_llm_html cs)"
  by pat_completeness auto
termination
proof (relation "measure length")
  show "wf (measure length)" by simp
next
  fix c cs r
  assume "match_script_open (c # cs) = Some r"
  then have "r = drop 6 (dropWhile py_isspace cs)"
    by (simp add: Let_def split: if_splits)
  moreover have "length (dropWhile py_isspace cs) \<le> length cs"
    by (rule length_dropWhile_le)
  ultimately show "(r, c # cs) \<in> measure length" by simp
next
  fix c :: char and cs :: string
  show "(cs, c # cs) \<in> measure length" by simp
qed

text \<open>Some suffix of the string starts with a match of the pattern.\<close>

fun has_script_open :: "string \<Rightarrow> bool" where
  "has_script_open [] = False"
| "has_script_open (c # cs) = (match_script_open (c # cs) \<noteq> None \<or> has_script_open cs)"


section \<open>reddit.py\<close>

text \<open>
  A dictionary with string values is an association list in insertion order;
  \<open>d.get(k)\<close> is \<^term>\<open>map_of d k\<close> and \<open>d[k] = v\<close> is \<^const>\<open>AList.update\<close>.
\<close>

type_synonym dict = "(string \<times> string) list"

definition dict_get :: "dict \<Rightarrow> string \<Rightarrow> string \<Rightarrow> string" where
  "dict_get d k dflt = (case map_of d k of None \<Rightarrow> dflt | Some v \<Rightarrow> v)"

definition safe_image :: "string \<Rightarrow> string" where
  "safe_image url =
     (if url = [] then []
      else (let u = str_strip url
            in if str_contains ''i.redd.it/'' u then u
               else if str_contains ''preview.redd.it/'' u then u
               else []))"

definition hero_image_kind :: "string \<Rightarrow> string" where
  "hero_image_kind img =
     (if str_contains ''i.redd.it/'' img then ''reddit_image''
      else if str_contains ''preview.redd.it/'' img then ''reddit_preview''
      else ''none'')"

text \<open>
  What \<open>fetch_rss_entries\<close> reads off one \<open>entry\<close> element of the parsed feed: the text of
  its children (empty when a child or its text is missing), what
  \<open>_extract_first_img_from_html\<close> finds in the content and in the summary, and the \<open>url\<close>
  attribute of the thumbnail element when there is one.
\<close>

record raw_entry =
  raw_title :: string
  raw_href :: string
  raw_summary :: string
  raw_published :: string
  raw_content_img :: string
  raw_summary_img :: string
  raw_thumbnail :: "string option"

definition entry_image :: "raw_entry \<Rightarrow> string" where
  "entry_image ent =
     (let img = (if raw_content_img ent \<noteq> [] then raw_content_img ent else raw_summary_img ent);
          img = (if img = []
                 then (case raw_thumbnail ent of None \<Rightarrow> img | Some u \<Rightarrow> str_strip u)
                 else img)
      in safe_image img)"

fun feed_loop :: "string \<Rightarrow> nat \<Rightarrow> dict list \<Rightarrow> raw_entry list \<Rightarrow> dict list" where
  "feed_loop rss_url max_items entries [] = entries"
| "feed_loop rss_url max_items entries (ent # rest) =
     (let title = str_strip (raw_title ent);
          link = str_strip (raw_href ent);
          summary = str_strip (raw_summary ent);
          published = str_strip (raw_published ent);
          img = entry_image ent
      in if title = [] \<or> link = [] then feed_loop rss_url max_items entries rest
         else (let entries' = entries @
                     [[(''title'', title), (''link'', link), (''summary'', summary),
                       (''published'', published), (''rss'', rss_url),
                       (''hero_image'', img), (''hero_image_kind'', hero_image_kind img)]]
               in if length entries' \<ge> max_items then entries'
                  else feed_loop rss_url max_items entries' rest))"

datatype error = RuntimeError string | ExternalError string

text \<open>
  The collaborators of a run: the HTTP request and XML parse of a feed, the chat completion
  (given the title, link and summary the prompt quotes), \<open>slugify\<close>, the index
  \<open>random.choice\<close> draws, the clock, and the exception \<open>build_site\<close> may raise while it
  renders (a missing key, a template error).
\<close>

record env =
  http_get_feed :: "string \<Rightarrow> error + raw_entry list"
  chat :: "string \<Rightarrow> string \<Rightarrow> string \<Rightarrow> error + string"
  slugify :: "string \<Rightarrow> string"
  random_index :: nat
  now_utc_iso :: string
  ts_ymd :: string
  ts_iso :: string
  ts_epoch :: string
  render_error :: "dict list \<Rightarrow> error option"

definition fetch_rss_entries :: "env \<Rightarrow> string \<Rightarrow> error + dict list" where
  "fetch_rss_entries ev rss_url =
     (case http_get_feed ev rss_url of
        Inl e \<Rightarrow> Inl e
      | Inr ents \<Rightarrow> Inr (feed_loop rss_url 25 [] ents))"


section \<open>generate.py\<close>

subsection \<open>Configuration and persisted state\<close>

text \<open>
  The fields of \<open>config.json\<close> a run reads.  \<open>None\<close> stands for a key that is missing (at
  either level of nesting) or \<open>null\<close>; \<open>generation_pick_random\<close> is the truth value of
  \<open>cfg.get("generation", {}).get("pick_random", False)\<close>.
\<close>

record config =
  site_base_url :: "string option"
  site_site_dir :: "string option"
  safety_blocked_keywords :: "string list option"
  feeds_reddit_rss :: "string list option"
  generation_pick_random :: bool

text \<open>The record \<open>write_last_run\<close> stores.\<close>

record run_record =
  updated_utc :: string
  homepage_url :: string
  created :: bool
  article_url :: string
  article_path :: "string option"
  article_title :: string
  source_url :: string
  run_note :: "string option"

text \<open>What a run does, in the order it does it.\<close>

datatype event =
    LoadConfig | LoadProcessed | LoadArticles | PickCandidate | Generate
  | AppendProcessed | WriteArticles | BuildSite | WriteLastRun | WriteFlag

text \<open>
  The files of a deployment; \<open>None\<close> is a file that does not exist.  The site is kept as
  the output directory and, for every article page, the article with its related articles.
\<close>

record world =
  lite_ran_flag :: "string option"
  config_file :: "config option"
  processed_file :: "string option"
  articles_file :: "dict list option"
  last_run_file :: "run_record option"
  site :: "(string \<times> (dict \<times> dict list) list) option"
  trace :: "event list"

definition log_event :: "event \<Rightarrow> world \<Rightarrow> world" where
  "log_event e w = w\<lparr>trace := trace w @ [e]\<rparr>"

definition read_text :: "string option \<Rightarrow> string" where
  "read_text f = (case f of None \<Rightarrow> [] | Some s \<Rightarrow> s)"

definition get_site_dir :: "config \<Rightarrow> string" where
  "get_site_dir cfg =
     (let d = (case site_site_dir cfg of None \<Rightarrow> [] | Some x \<Rightarrow> x);
          site_dir_str = str_strip (if d = [] then ''docs'' else d)
      in str_lstrip_chars ''./'' site_dir_str)"

definition load_processed :: "string option \<Rightarrow> string set" where
  "load_processed f =
     set (map normalize_url (filter (\<lambda>x. str_strip x \<noteq> []) (str_splitlines (read_text f))))"

definition append_processed :: "string \<Rightarrow> string option \<Rightarrow> string option" where
  "append_processed url0 f =
     (let url = normalize_url url0;
          existing = load_processed f
      in if url \<in> existing then f
         else (let current = str_rstrip (read_text f);
                   current = (if str_strip current \<noteq> [] then current @ [CHR 0x0A] else current);
                   current = current @ url @ [CHR 0x0A]
               in Some current))"

subsection \<open>Candidate filter and related articles\<close>

fun is_blocked :: "string \<Rightarrow> string list \<Rightarrow> bool" where
  "is_blocked title [] = False"
| "is_blocked title (kw # kws) =
     (if str_contains (str_lower kw) (str_lower title) then True else is_blocked title kws)"

text \<open>
  \<open>scored.sort(key=lambda x: x[0], reverse=True)\<close> is a stable sort into descending order
  (entries with equal keys keep their order), which is the stable ascending sort on the
  negated key.
\<close>

definition related_articles :: "dict \<Rightarrow> dict list \<Rightarrow> nat \<Rightarrow> dict list" where
  "related_articles current articles k =
     (let cur_tok = simple_tokens (dict_get current ''title'' []);
          scored = map (\<lambda>a. (jaccard cur_tok (simple_tokens (dict_get a ''title'' [])), a))
                       (filter (\<lambda>a. map_of a ''id'' \<noteq> map_of current ''id'') articles);
          scored = sort_key (\<lambda>x. - fst x) scored
      in map snd (filter (\<lambda>x. fst x > 5 / 100) (take k scored)))"

subsection \<open>pick\_candidate\<close>

text \<open>Lines 169 and 170: the two keys a surviving entry gets before it is appended.\<close>

definition annotate_entry :: "dict \<Rightarrow> dict" where
  "annotate_entry e =
     (let e1 = AList.update ''image_url'' (dict_get e ''hero_image'' []) e;
          k = dict_get e1 ''hero_image_kind'' ''none''
      in AList.update ''image_kind'' (if k = [] then ''none'' else k) e1)"

text \<open>The body of the inner loop: \<open>None\<close> for \<open>continue\<close>, else the entry as it is appended.\<close>

definition consider_entry ::
  "string list \<Rightarrow> string set \<Rightarrow> string fset list \<Rightarrow> dict \<Rightarrow> dict option" where
  "consider_entry blocked_kw processed prev_tok e =
     (let link = normalize_url (dict_get e ''link'' []);
          title = dict_get e ''title'' []
      in if link = [] \<or> link \<in> processed then None
         else if is_blocked title blocked_kw then None
         else (let tok = simple_tokens title;
                   too_similar = list_ex (\<lambda>pt. jaccard tok pt \<ge> 78 / 100) prev_tok
               in if too_similar then None else Some (annotate_entry e)))"

fun scan_entries ::
  "string list \<Rightarrow> string set \<Rightarrow> string fset list \<Rightarrow> dict list \<Rightarrow> dict list \<Rightarrow> dict list" where
  "scan_entries blocked_kw processed prev_tok candidates [] = candidates"
| "scan_entries blocked_kw processed prev_tok candidates (e # es) =
     (case consider_entry blocked_kw processed prev_tok e of
        None \<Rightarrow> scan_entries blocked_kw processed prev_tok candidates es
      | Some e' \<Rightarrow> scan_entries blocked_kw processed prev_tok (candidates @ [e']) es)"

fun scan_feeds ::
  "env \<Rightarrow> string list \<Rightarrow> string set \<Rightarrow> string fset list \<Rightarrow> dict list \<Rightarrow> string list
     \<Rightarrow> error + dict list" where
  "scan_feeds ev blocked_kw processed prev_tok candidates [] = Inr candidates"
| "scan_feeds ev blocked_kw processed prev_tok candidates (rss # rest) =
     (case fetch_rss_entries ev rss of
        Inl err \<Rightarrow> Inl err
      | Inr es \<Rightarrow> scan_feeds ev blocked_kw processed prev_tok
                    (scan_entries blocked_kw processed prev_tok candidates es) rest)"

definition pick_candidate ::
  "env \<Rightarrow> config \<Rightarrow> string set \<Rightarrow> dict list \<Rightarrow> error + dict option" where
  "pick_candidate ev cfg processed articles =
     (let blocked_kw = (case safety_blocked_keywords cfg of None \<Rightarrow> [] | Some l \<Rightarrow> l);
          rss_list = (case feeds_reddit_rss cfg of None \<Rightarrow> [] | Some l \<Rightarrow> l)
      in if rss_list = []
         then Inl (RuntimeError ''config.feeds.reddit_rss is empty. Add at least one RSS URL.'')
         else (let prev_titles = map (\<lambda>a. dict_get a ''title'' []) articles;
                   prev_tok = map simple_tokens (filter (\<lambda>t. t \<noteq> []) prev_titles)
               in case scan_feeds ev blocked_kw processed prev_tok [] rss_list of
                    Inl err \<Rightarrow> Inl err
                  | Inr candidates \<Rightarrow>
                      (case candidates of
                         [] \<Rightarrow> Inr None
                       | c # cs \<Rightarrow>
                           if generation_pick_random cfg
                           then Inr (Some (candidates ! (random_index ev mod length candidates)))
                           else Inr (Some c))))"

subsection \<open>deepseek\_article\<close>

text \<open>
  The pattern \<open>(?is)^\s*TITLE:\s*(.+?)\s*\n\s*\n(.*)$\<close> is matched the way \<open>re.match\<close> does
  it, by backtracking: every quantifier offers its alternatives in order of preference and
  the first combination that lets the rest of the pattern match is the result.
  \<^item> \<open>\s*\<close> is greedy: it offers the remainders of the string behind a run of whitespace,
    the longest run first.
  \<^item> \<open>(.+?)\<close> is lazy and, under the flag \<open>s\<close>, takes any character: it offers one
    character, then two, and so on.
  \<^item> \<open>(.*)$\<close> under the flag \<open>s\<close> takes the rest of the string.
\<close>

fun first_some :: "('a \<Rightarrow> 'b option) \<Rightarrow> 'a list \<Rightarrow> 'b option" where
  "first_some f [] = None"
| "first_some f (x # xs) = (case f x of Some y \<Rightarrow> Some y | None \<Rightarrow> first_some f xs)"

fun ws_splits :: "string \<Rightarrow> string list" where
  "ws_splits [] = [[]]"
| "ws_splits (c # cs) = (if py_isspace c then ws_splits cs @ [c # cs] else [c # cs])"

definition lazy_splits :: "string \<Rightarrow> (string \<times> string) list" where
  "lazy_splits s = map (\<lambda>k. (take k s, drop k s)) [1..<Suc (length s)]"

definition eat_newline :: "string \<Rightarrow> string option" where
  "eat_newline s = (case s of [] \<Rightarrow> None | c # cs \<Rightarrow> if c = CHR 0x0A then Some cs else None)"

text \<open>\<open>\s*\n\s*\n(.*)$\<close>; the result is group 2.\<close>

definition match_blank_gap :: "string \<Rightarrow> string option" where
  "match_blank_gap s =
     first_some (\<lambda>r1. case eat_newline r1 of
                         None \<Rightarrow> None
                       | Some r2 \<Rightarrow> first_some eat_newline (ws_splits r2))
                (ws_splits s)"

text \<open>The whole pattern; the result is (group 1, group 2).\<close>

definition match_title_body :: "string \<Rightarrow> (string \<times> string) option" where
  "match_title_body out =
     first_some (\<lambda>r0.
         if ci_prefix ''title:'' r0
         then first_some (\<lambda>r1.
                  first_some (\<lambda>(g1, r2). map_option (\<lambda>g2. (g1, g2)) (match_blank_gap r2))
                             (lazy_splits r1))
                (ws_splits (drop 6 r0))
         else None)
       (ws_splits out)"

text \<open>
  Lines 232 to 243: what \<open>deepseek_article\<close> makes of the completion \<open>out\<close>, where \<open>title\<close>
  is the stripped title of the item.
\<close>

definition parse_llm_output :: "string \<Rightarrow> string \<Rightarrow> string \<times> string" where
  "parse_llm_output title out0 =
     (let out = str_strip out0;
          (llm_title, llm_html) =
             (case match_title_body out of
                Some (g1, g2) \<Rightarrow> (str_strip g1, str_strip g2)
              | None \<Rightarrow> (title, out))
      in (llm_title, sanitize_llm_html llm_html))"

definition deepseek_article :: "env \<Rightarrow> dict \<Rightarrow> error + (string \<times> string)" where
  "deepseek_article ev item =
     (let title = str_strip (dict_get item ''title'' []);
          link = str_strip (dict_get item ''link'' []);
          summary = str_strip (dict_get item ''summary'' [])
      in case chat ev title link summary of
           Inl err \<Rightarrow> Inl err
         | Inr out \<Rightarrow> Inr (parse_llm_output title out))"

subsection \<open>main\<close>

definition build_site :: "env \<Rightarrow> string \<Rightarrow> dict list \<Rightarrow> world \<Rightarrow> error option \<times> world" where
  "build_site ev site_dir articles w =
     (let w1 = log_event BuildSite w
      in case render_error ev articles of
           Some err \<Rightarrow> (Some err, w1)
         | None \<Rightarrow>
             (None, w1\<lparr>site := Some (site_dir,
                                       map (\<lambda>a. (a, related_articles a articles 6)) articles)\<rparr>))"

text \<open>
  \<open>write_last_run\<close> reads \<open>cfg["site"]["base_url"]\<close> as it stands in the configuration, and
  that lookup raises when the key is missing.
\<close>

definition write_last_run :: "env \<Rightarrow> config \<Rightarrow> run_record \<Rightarrow> world \<Rightarrow> error option \<times> world" where
  "write_last_run ev cfg payload w =
     (case site_base_url cfg of
        None \<Rightarrow> (Some (ExternalError ''KeyError''), w)
      | Some b \<Rightarrow>
          (None,
           (log_event WriteLastRun w)
             \<lparr>last_run_file :=
                Some (payload\<lparr>updated_utc := now_utc_iso ev,
                              homepage_url := str_rstrip_chars ''/'' b @ ''/''\<rparr>)\<rparr>))"

definition write_flag :: "env \<Rightarrow> world \<Rightarrow> world" where
  "write_flag ev w = (log_event WriteFlag w)\<lparr>lite_ran_flag := Some (now_utc_iso ev @ [CHR 0x0A])\<rparr>"

definition no_candidate_record :: run_record where
  "no_candidate_record =
     \<lparr>updated_utc = [], homepage_url = [], created = False, article_url = [],
      article_path = None, article_title = [], source_url = [],
      run_note = Some ''No new candidate found. Site rebuilt.''\<rparr>"

definition make_article ::
  "env \<Rightarrow> dict \<Rightarrow> string \<Rightarrow> string \<Rightarrow> string \<times> dict" where
  "make_article ev cand llm_title body_html =
     (let t = (if llm_title \<noteq> [] then llm_title else dict_get cand ''title'' []);
          sl = take 80 (slugify ev t);
          slug = (if sl \<noteq> [] then sl else ''post-'' @ ts_epoch ev);
          path = ''/articles/'' @ ts_ymd ev @ ''-'' @ slug @ ''.html'';
          ik = dict_get cand ''image_kind'' ''none''
      in (path,
          [(''id'', ts_ymd ev @ ''-'' @ slug),
           (''title'', t),
           (''path'', path),
           (''published_ts'', ts_iso ev),
           (''source_url'', dict_get cand ''link'' []),
           (''rss'', dict_get cand ''rss'' []),
           (''summary'', dict_get cand ''summary'' []),
           (''body_html'', body_html),
           (''hero_image'', dict_get cand ''image_url'' []),
           (''hero_image_kind'', if ik = [] then ''none'' else ik)]))"

text \<open>
  A run.  The result is the exception that ends it, if any, and the files it leaves.  The
  message of the missing configuration is given without the path the source appends.
\<close>

definition main :: "env \<Rightarrow> world \<Rightarrow> error option \<times> world" where
  "main ev w =
     (if lite_ran_flag w \<noteq> None
      then (Some (RuntimeError ''Lite edition: this repository can only be executed once.''), w)
      else case config_file w of
        None \<Rightarrow> (Some (RuntimeError ''config.json not found''), w)
      | Some cfg \<Rightarrow>
         (let w = log_event LoadConfig w;
              base_url = str_strip (case site_base_url cfg of None \<Rightarrow> [] | Some b \<Rightarrow> b)
          in if base_url = []
             then (Some (RuntimeError ''config.site.base_url is missing (example: https://YOURNAME.github.io/YOURREPO)''), w)
             else
              (let site_dir = get_site_dir cfg;
                   w = log_event LoadProcessed w;
                   processed = load_processed (processed_file w);
                   w = log_event LoadArticles w;
                   articles = (case articles_file w of None \<Rightarrow> [] | Some l \<Rightarrow> l);
                   w = log_event PickCandidate w
               in case pick_candidate ev cfg processed articles of
                    Inl err \<Rightarrow> (Some err, w)
                  | Inr None \<Rightarrow>
                      (case build_site ev site_dir articles w of
                         (Some err, w) \<Rightarrow> (Some err, w)
                       | (None, w) \<Rightarrow>
                           (case write_last_run ev cfg no_candidate_record w of
                              (Some err, w) \<Rightarrow> (Some err, w)
                            | (None, w) \<Rightarrow> (None, write_flag ev w)))
                  | Inr (Some cand) \<Rightarrow>
                      (let w = log_event Generate w
                       in case deepseek_article ev cand of
                            Inl err \<Rightarrow> (Some err, w)
                          | Inr (llm_title, body_html) \<Rightarrow>
                              (let (path, entry) = make_article ev cand llm_title body_html;
                                   the_url = str_rstrip_chars ''/'' base_url @ path;
                                   w = (log_event AppendProcessed w)
                                         \<lparr>processed_file :=
                                            append_processed (dict_get cand ''link'' [])
                                                             (processed_file w)\<rparr>;
                                   articles = entry # articles;
                                   w = (log_event WriteArticles w)\<lparr>articles_file := Some articles\<rparr>
                               in case build_site ev site_dir articles w of
                                    (Some err, w) \<Rightarrow> (Some err, w)
                                  | (None, w) \<Rightarrow>
                                      (case write_last_run ev cfg
                                              \<lparr>updated_utc = [], homepage_url = [], created = True,
                                               article_url = the_url, article_path = Some path,
                                               article_title = dict_get cand ''title'' [],
                                               source_url = dict_get cand ''link'' [],
                                               run_note = None\<rparr> w of
                                         (Some err, w) \<Rightarrow> (Some err, w)
                                       | (None, w) \<Rightarrow> (None, write_flag ev w)))))))"


section \<open>Notions the properties are stated with\<close>

subsection \<open>In the words of the specification\<close>

text \<open>
  Jaccard similarity as the specification words it: 1 if both sets are empty, 0 if exactly
  one is empty, else the size of the intersection over the size of the union.
\<close>

definition jaccard_ref :: "'a fset \<Rightarrow> 'a fset \<Rightarrow> rat" where
  "jaccard_ref a b =
     (if a = {||} \<and> b = {||} then 1
      else if (a = {||}) \<noteq> (b = {||}) then 0
      else of_nat (fcard (a |\<inter>| b)) / of_nat (fcard (a |\<union>| b)))"

text \<open>
  Token extraction as the specification words it: lowercase, replace every character
  outside \<open>[a-z0-9\s]\<close> (by a space), split on whitespace, keep the tokens longer than 2,
  as a set.
\<close>

definition spec_tokens :: "string \<Rightarrow> string fset" where
  "spec_tokens s =
     fset_of_list (filter (\<lambda>p. length p > 2)
        (str_split (map (\<lambda>c. if in_token_class c then c else CHR '' '') (str_lower s))))"

text \<open>
  Exclusion of a feed entry as the specification words it: the similarity test runs
  against the title of every past article.
\<close>

definition spec_excluded :: "config \<Rightarrow> string set \<Rightarrow> dict list \<Rightarrow> dict \<Rightarrow> bool" where
  "spec_excluded cfg processed articles e =
     (let link = normalize_url (dict_get e ''link'' []);
          title = dict_get e ''title'' [];
          blocked_kw = (case safety_blocked_keywords cfg of None \<Rightarrow> [] | Some l \<Rightarrow> l)
      in link = [] \<or> link \<in> processed
         \<or> list_ex (\<lambda>kw. str_contains (str_lower kw) (str_lower title)) blocked_kw
         \<or> list_ex (\<lambda>a. jaccard (simple_tokens title) (simple_tokens (dict_get a ''title'' []))
                           \<ge> 78 / 100) articles)"

text \<open>
  The host of an absolute URL, for the claim that the image allowlist goes by host: what
  stands between \<open>://\<close> and the next \<open>/\<close>, \<open>?\<close> or \<open>#\<close>.
\<close>

fun after_scheme :: "string \<Rightarrow> string" where
  "after_scheme [] = []"
| "after_scheme (c # cs) = (if prefix ''://'' (c # cs) then drop 3 (c # cs) else after_scheme cs)"

definition url_host :: "string \<Rightarrow> string" where
  "url_host u = takeWhile (\<lambda>c. c \<notin> set ''/?#'') (after_scheme u)"

subsection \<open>Read off the code\<close>

text \<open>
  Exclusion of a feed entry with the similarity test run against the non-empty past titles
  only.
\<close>

definition entry_excluded :: "config \<Rightarrow> string set \<Rightarrow> dict list \<Rightarrow> dict \<Rightarrow> bool" where
  "entry_excluded cfg processed articles e =
     (let link = normalize_url (dict_get e ''link'' []);
          title = dict_get e ''title'' [];
          blocked_kw = (case safety_blocked_keywords cfg of None \<Rightarrow> [] | Some l \<Rightarrow> l)
      in link = [] \<or> link \<in> processed
         \<or> list_ex (\<lambda>kw. str_contains (str_lower kw) (str_lower title)) blocked_kw
         \<or> list_ex (\<lambda>a. dict_get a ''title'' [] \<noteq> []
                       \<and> jaccard (simple_tokens title) (simple_tokens (dict_get a ''title'' []))
                           \<ge> 78 / 100) articles)"

text \<open>The similarity the related-articles ranking goes by.\<close>

definition title_similarity :: "dict \<Rightarrow> dict \<Rightarrow> rat" where
  "title_similarity current a =
     jaccard (simple_tokens (dict_get current ''title'' [])) (simple_tokens (dict_get a ''title'' []))"

text \<open>
  The invariant of the processed-link set: the normalized \<open>source_url\<close> of every archived
  article is among the links the processed file holds.
\<close>

definition archived_links :: "world \<Rightarrow> string list" where
  "archived_links w =
     map (\<lambda>a. normalize_url (dict_get a ''source_url'' []))
         (case articles_file w of None \<Rightarrow> [] | Some l \<Rightarrow> l)"

definition processed_invariant :: "world \<Rightarrow> bool" where
  "processed_invariant w =
     list_all (\<lambda>l. l \<in> load_processed (processed_file w)) (archived_links w)"

text \<open>The links a list of lines holds, as \<open>load_processed\<close> reads them.\<close>

definition links_of :: "string list \<Rightarrow> string set" where
  "links_of ls = set (map normalize_url (filter (\<lambda>x. str_strip x \<noteq> []) ls))"

text \<open>
  Both branches of \<open>main\<close> end the same way: build the site, write the run record, set
  the marker.  This names that tail.
\<close>

definition finish_run ::
  "env \<Rightarrow> config \<Rightarrow> string \<Rightarrow> dict list \<Rightarrow> run_record \<Rightarrow> world
     \<Rightarrow> error option \<times> world" where
  "finish_run ev cfg site_dir articles payload w =
     (case build_site ev site_dir articles w of
        (Some err, w) \<Rightarrow> (Some err, w)
      | (None, w) \<Rightarrow>
          (case write_last_run ev cfg payload w of
             (Some err, w) \<Rightarrow> (Some err, w)
           | (None, w) \<Rightarrow> (None, write_flag ev w)))"

subsection \<open>Concrete deployments\<close>

text \<open>
  A feed server that answers every request with the given entries, a model that answers
  with the given completion, and a configuration with the given feed list.
\<close>

definition demo_raw :: "string \<Rightarrow> string \<Rightarrow> raw_entry" where
  "demo_raw t l = \<lparr>raw_title = t, raw_href = l, raw_summary = [], raw_published = [],
      raw_content_img = [], raw_summary_img = [], raw_thumbnail = None\<rparr>"

definition demo_env :: "raw_entry list \<Rightarrow> string \<Rightarrow> env" where
  "demo_env ents reply =
     \<lparr>http_get_feed = (\<lambda>u. Inr ents), chat = (\<lambda>t l s. Inr reply), slugify = (\<lambda>t. ''slug''),
      random_index = 0, now_utc_iso = ''2024-01-01T00:00:00+00:00'', ts_ymd = ''2024-01-01'',
      ts_iso = ''2024-01-01T00:00:00+00:00'', ts_epoch = ''1704067200'',
      render_error = (\<lambda>a. None)\<rparr>"

definition demo_cfg :: "string list \<Rightarrow> config" where
  "demo_cfg feeds = \<lparr>site_base_url = Some ''https://me.github.io/site'', site_site_dir = None,
      safety_blocked_keywords = Some [''Casino''], feeds_reddit_rss = Some feeds,
      generation_pick_random = False\<rparr>"

definition demo_entry :: "string \<Rightarrow> string \<Rightarrow> dict" where
  "demo_entry t l = [(''title'', t), (''link'', l), (''summary'', []), (''published'', []),
      (''rss'', ''u''), (''hero_image'', []), (''hero_image_kind'', ''none'')]"

definition demo_world :: "string option \<Rightarrow> string option \<Rightarrow> dict list option \<Rightarrow> world" where
  "demo_world flag processed articles =
     \<lparr>lite_ran_flag = flag, config_file = Some (demo_cfg [''u'']), processed_file = processed,
      articles_file = articles, last_run_file = None, site = None, trace = []\<rparr>"

definition demo_article :: "string \<Rightarrow> string \<Rightarrow> dict" where
  "demo_article i t = [(''id'', i), (''title'', t)]"

definition demo_archive :: "dict list" where
  "demo_archive =
     [demo_article ''a0'' ''Rocket science explained'',
      demo_article ''a1'' ''SpaceX launches new rocket today'',
      demo_article ''a2'' ''SpaceX launches new rocket this morning'',
      demo_article ''a3'' ''Cooking pasta'',
      demo_article ''a4'' ''Rocket fuel prices'',
      demo_article ''a5'' ''New rocket'',
      demo_article ''a6'' ''Today in history'',
      demo_article ''a7'' ''SpaceX news'',
      demo_article ''a8'' ''Launches galore'',
      demo_article ''a9'' ''Rocket league'']"


section \<open>Jaccard similarity\<close>

text \<open>
  Claim C9.  Jaccard similarity of two token sets is the reference definition: 1 when both
  sets are empty, 0 when exactly one is empty, and the size of the intersection over the
  size of the union otherwise; for three different elements \<open>x\<close>, \<open>y\<close>, \<open>z\<close> the
  similarity of \<open>{x, y}\<close> and \<open>{y, z}\<close> is one third.
\<close>

theorem jaccard_reference:
  "jaccard a b = jaccard_ref a b
   \<and> (distinct [x, y, z] \<longrightarrow> jaccard {|x, y|} {|y, z|} = 1 / 3)"
proof
  show "jaccard a b = jaccard_ref a b"
    by (auto simp: jaccard_def jaccard_ref_def Let_def)
next
  show "distinct [x, y, z] \<longrightarrow> jaccard {|x, y|} {|y, z|} = 1 / 3"
  proof
    assume "distinct [x, y, z]"
    then have d: "x \<noteq> y" "y \<noteq> z" "x \<noteq> z" by auto
    have i: "{|x, y|} |\<inter>| {|y, z|} = {|y|}" using d by auto
    have u: "{|x, y|} |\<union>| {|y, z|} = {|x, y, z|}" by auto
    have ci: "fcard ({|x, y|} |\<inter>| {|y, z|}) = 1"
      unfolding i by (simp add: fcard_finsert_if)
    have cu: "fcard ({|x, y|} |\<union>| {|y, z|}) = 3"
      unfolding u using d by (simp add: fcard_finsert_if)
    have ne: "{|x, y|} \<noteq> {||}" "{|y, z|} \<noteq> {||}" by simp_all
    show "jaccard {|x, y|} {|y, z|} = 1 / 3"
      unfolding jaccard_def Let_def ci cu using ne by simp
  qed
qed

theorem jaccard_reference_witness:
  "distinct [''a'', ''b'', ''c'']
   \<and> jaccard {|''a'', ''b''|} {|''b'', ''c''|} = 1 / 3
   \<and> jaccard {||} ({||} :: string fset) = 1
   \<and> jaccard {|''a''|} {||} = 0"
proof -
  have d: "distinct [''a'', ''b'', ''c'']" by simp
  have r: "jaccard_ref {||} ({||} :: string fset) = 1" "jaccard_ref {|''a''|} {||} = 0"
    by (simp_all add: jaccard_ref_def)
  show ?thesis
    using d r jaccard_reference[of "{||} :: string fset" "{||}" "''a''" "''b''" "''c''"]
      jaccard_reference[of "{|''a''|}" "{||}" "''a''" "''b''" "''c''"]
    by simp
qed


section \<open>Token extraction\<close>

lemma split_acc_spaces:
  "\<forall>c\<in>set ws. py_isspace c \<Longrightarrow> split_acc [] (ws @ s) = split_acc [] s"
  by (induction ws) auto

lemma sub_non_token_split:
  "split_acc cur (sub_non_token s)
   = split_acc cur (map (\<lambda>c. if in_token_class c then c else CHR '' '') s)"
proof (induction s arbitrary: cur rule: sub_non_token.induct)
  case 1
  then show ?case by simp
next
  case (2 c cs)
  show ?case
  proof (cases "in_token_class c")
    case True
    then show ?thesis using 2 by simp
  next
    case False
    let ?f = "\<lambda>c. if in_token_class c then c else CHR '' ''"
    let ?d = "dropWhile (\<lambda>x. \<not> in_token_class x) cs"
    let ?t = "takeWhile (\<lambda>x. \<not> in_token_class x) cs"
    have sp: "py_isspace (CHR '' '')" by (simp add: py_isspace_def)
    have eq: "map ?f cs = map ?f ?t @ map ?f ?d"
      by (simp flip: map_append)
    have ws: "\<forall>c\<in>set (map ?f ?t). py_isspace c"
      using sp by (auto dest: set_takeWhileD)
    have "split_acc [] (map ?f cs) = split_acc [] (map ?f ?d)"
      by (subst eq) (rule split_acc_spaces[OF ws])
    then show ?thesis using 2(2)[OF False] False sp by simp
  qed
qed

text \<open>
  Claim C2, as amended.  Token extraction lowercases its input, replaces every character
  outside \<open>[a-z0-9]\<close> and whitespace by a space, splits on whitespace, keeps only tokens of
  length greater than 2, and returns them as a set; for the input \<open>The Big-Bad Test 2024\<close>
  the token set is \<open>{the, big, bad, test, 2024}\<close>, the three-letter token \<open>the\<close> included.
\<close>

theorem simple_tokens_spec:
  "simple_tokens s = spec_tokens s
   \<and> simple_tokens ''The Big-Bad Test 2024''
       = {|''the'', ''big'', ''bad'', ''test'', ''2024''|}"
proof
  have f: "filter (\<lambda>p. p \<noteq> [] \<and> length p > 2) xs = filter (\<lambda>p. length p > 2) xs"
    for xs :: "string list"
    by (rule filter_cong) auto
  show "simple_tokens s = spec_tokens s"
    unfolding simple_tokens_def spec_tokens_def str_split_def sub_non_token_split f ..
next
  show "simple_tokens ''The Big-Bad Test 2024''
        = {|''the'', ''big'', ''bad'', ''test'', ''2024''|}"
    by code_simp
qed

theorem simple_tokens_spec_witness:
  "simple_tokens ''Hello, World -- it is the 42nd time!'' = {|''hello'', ''world'', ''the'', ''42nd'', ''time''|}
   \<and> simple_tokens ''The Big-Bad Test 2024''
       = {|''the'', ''big'', ''bad'', ''test'', ''2024''|}"
proof -
  have "spec_tokens ''Hello, World -- it is the 42nd time!''
        = {|''hello'', ''world'', ''the'', ''42nd'', ''time''|}"
    by code_simp
  then show ?thesis
    using simple_tokens_spec[of "''Hello, World -- it is the 42nd time!''"] by simp
qed

text \<open>
  Claim C2 as written gives \<open>{big, bad, test, 2024}\<close> for that input; the code keeps \<open>the\<close>.
\<close>

theorem simple_tokens_example_counterexample:
  "simple_tokens ''The Big-Bad Test 2024'' \<noteq> {|''big'', ''bad'', ''test'', ''2024''|}"
  by code_simp


section \<open>Candidate selection\<close>

lemma is_blocked_iff:
  "is_blocked title kws = list_ex (\<lambda>kw. str_contains (str_lower kw) (str_lower title)) kws"
  by (induction kws) auto

lemma prev_tok_ex:
  "list_ex P (map simple_tokens
               (filter (\<lambda>t. t \<noteq> []) (map (\<lambda>a. dict_get a ''title'' []) articles)))
   = list_ex (\<lambda>a. dict_get a ''title'' [] \<noteq> [] \<and> P (simple_tokens (dict_get a ''title'' [])))
             articles"
  by (induction articles) auto

lemma consider_entry_eq:
  "consider_entry (case safety_blocked_keywords cfg of None \<Rightarrow> [] | Some l \<Rightarrow> l) processed
      (map simple_tokens
         (filter (\<lambda>t. t \<noteq> []) (map (\<lambda>a. dict_get a ''title'' []) articles))) e
   = (if entry_excluded cfg processed articles e then None else Some (annotate_entry e))"
  unfolding consider_entry_def entry_excluded_def Let_def is_blocked_iff prev_tok_ex
  by auto

lemma scan_entries_eq:
  assumes "\<And>e. consider_entry kws processed pt e = (if P e then None else Some (g e))"
  shows "scan_entries kws processed pt cands es = cands @ map g (filter (\<lambda>e. \<not> P e) es)"
  by (induction es arbitrary: cands) (auto simp: assms)

lemma scan_feeds_ok:
  assumes "\<And>e. consider_entry kws processed pt e = (if P e then None else Some (g e))"
  shows "map (fetch_rss_entries ev) feeds = map Inr ess \<Longrightarrow>
         scan_feeds ev kws processed pt cands feeds
         = Inr (cands @ map g (filter (\<lambda>e. \<not> P e) (concat ess)))"
proof (induction feeds arbitrary: cands ess)
  case Nil
  then show ?case by simp
next
  case (Cons f feeds)
  then obtain es ess' where e: "ess = es # ess'" by (cases ess) auto
  with Cons.prems have f: "fetch_rss_entries ev f = Inr es"
    and r: "map (fetch_rss_entries ev) feeds = map Inr ess'" by auto
  show ?case using Cons.IH[OF r] f e
    by (simp add: scan_entries_eq[OF assms])
qed

lemma find_filter: "find P xs = (case filter P xs of [] \<Rightarrow> None | x # _ \<Rightarrow> Some x)"
  by (induction xs) auto

text \<open>
  Claim C1, as amended.  For every configuration with random pick disabled and a non-empty
  feed list, every processed-link set and every list of past articles, when every feed is
  fetched without error, \<open>pick_candidate\<close> returns the first entry in feed-then-entry order
  among those not excluded (with its image keys set), and none when every entry is
  excluded.  An entry is excluded exactly when its normalized link is empty or in the
  processed set, or its title contains a blocked keyword as a case-insensitive substring,
  or the token set of its title has Jaccard similarity at least 0.78 with the token set of
  the non-empty title of some past article.
\<close>

theorem pick_candidate_first:
  assumes "\<not> generation_pick_random cfg"
    and "feeds_reddit_rss cfg = Some feeds" and "feeds \<noteq> []"
    and "map (fetch_rss_entries ev) feeds = map Inr ess"
  shows "pick_candidate ev cfg processed articles
         = Inr (map_option annotate_entry
                  (find (\<lambda>e. \<not> entry_excluded cfg processed articles e) (concat ess)))"
proof -
  let ?kws = "case safety_blocked_keywords cfg of None \<Rightarrow> [] | Some l \<Rightarrow> l"
  let ?pt = "map simple_tokens
               (filter (\<lambda>t. t \<noteq> []) (map (\<lambda>a. dict_get a ''title'' []) articles))"
  have "scan_feeds ev ?kws processed ?pt [] feeds
        = Inr ([] @ map annotate_entry
                 (filter (\<lambda>e. \<not> entry_excluded cfg processed articles e) (concat ess)))"
    by (rule scan_feeds_ok[OF consider_entry_eq assms(4)])
  then show ?thesis
    using assms(1-3) unfolding pick_candidate_def Let_def
    by (simp add: find_filter split: list.splits)
qed

theorem pick_candidate_first_witness:
  "pick_candidate
     (demo_env [demo_raw ''Win at the CASINO'' ''http://x/a'', demo_raw ''A'' ''http://x/p/?x'',
                demo_raw ''SpaceX launches new rocket today'' ''http://x/b'',
                demo_raw ''Fresh news'' ''http://x/c/?utm=1'', demo_raw ''More'' ''http://x/d''] [])
     (demo_cfg [''u'']) {''http://x/p''} [[(''title'', ''SpaceX launches new rocket today!'')]]
   = Inr (Some (annotate_entry (demo_entry ''Fresh news'' ''http://x/c/?utm=1'')))"
proof -
  let ?ents = "[demo_raw ''Win at the CASINO'' ''http://x/a'', demo_raw ''A'' ''http://x/p/?x'',
                demo_raw ''SpaceX launches new rocket today'' ''http://x/b'',
                demo_raw ''Fresh news'' ''http://x/c/?utm=1'', demo_raw ''More'' ''http://x/d'']"
  let ?es = "[demo_entry ''Win at the CASINO'' ''http://x/a'', demo_entry ''A'' ''http://x/p/?x'',
              demo_entry ''SpaceX launches new rocket today'' ''http://x/b'',
              demo_entry ''Fresh news'' ''http://x/c/?utm=1'', demo_entry ''More'' ''http://x/d'']"
  let ?arts = "[[(''title'', ''SpaceX launches new rocket today!'')]]"
  have h1: "\<not> generation_pick_random (demo_cfg [''u''])"
    and h2: "feeds_reddit_rss (demo_cfg [''u'']) = Some [''u'']"
    by (simp_all add: demo_cfg_def)
  have h3: "[''u''] \<noteq> []" by simp
  have h4: "map (fetch_rss_entries (demo_env ?ents [])) [''u''] = map Inr [?es]"
    by code_simp
  have f: "find (\<lambda>e. \<not> entry_excluded (demo_cfg [''u'']) {''http://x/p''} ?arts e) (concat [?es])
           = Some (demo_entry ''Fresh news'' ''http://x/c/?utm=1'')"
    by code_simp
  show ?thesis
    using pick_candidate_first[OF h1 h2 h3 h4, of "{''http://x/p''}" ?arts] f by simp
qed

text \<open>
  Claim C1 as written fails on a past article whose title is empty: the entry titled \<open>Hi\<close>
  has an empty token set, as the empty past title has, so their similarity is 1 and the
  claim excludes the only entry; the code skips empty past titles and returns the entry.
  It also fails on an empty feed list, where the code raises instead of returning none.
\<close>

theorem pick_candidate_counterexample:
  "fetch_rss_entries (demo_env [demo_raw ''Hi'' ''http://x/a''] []) ''u''
     = Inr [demo_entry ''Hi'' ''http://x/a'']
   \<and> spec_excluded (demo_cfg [''u'']) {} [[(''title'', [])]] (demo_entry ''Hi'' ''http://x/a'')
   \<and> pick_candidate (demo_env [demo_raw ''Hi'' ''http://x/a''] []) (demo_cfg [''u'']) {}
         [[(''title'', [])]]
       = Inr (Some (annotate_entry (demo_entry ''Hi'' ''http://x/a'')))
   \<and> pick_candidate (demo_env [] []) (demo_cfg []) {} []
       = Inl (RuntimeError ''config.feeds.reddit_rss is empty. Add at least one RSS URL.'')"
  by code_simp

text \<open>
  Claim C10.  For every configuration whose feed URL list is empty or missing,
  \<open>pick_candidate\<close> fails with an error instead of returning none.
\<close>

theorem pick_candidate_no_feeds:
  assumes "feeds_reddit_rss cfg = None \<or> feeds_reddit_rss cfg = Some []"
  shows "pick_candidate ev cfg processed articles
         = Inl (RuntimeError ''config.feeds.reddit_rss is empty. Add at least one RSS URL.'')"
  using assms unfolding pick_candidate_def Let_def by auto

theorem pick_candidate_no_feeds_witness:
  "pick_candidate (demo_env [demo_raw ''Fresh news'' ''http://x/c''] []) (demo_cfg []) {} []
     = Inl (RuntimeError ''config.feeds.reddit_rss is empty. Add at least one RSS URL.'')
   \<and> pick_candidate (demo_env [demo_raw ''Fresh news'' ''http://x/c''] [])
        ((demo_cfg [])\<lparr>feeds_reddit_rss := None\<rparr>) {} []
       = Inl (RuntimeError ''config.feeds.reddit_rss is empty. Add at least one RSS URL.'')
   \<and> pick_candidate (demo_env [demo_raw ''Fresh news'' ''http://x/c''] []) (demo_cfg []) {} []
       \<noteq> Inr None"
proof -
  have h1: "feeds_reddit_rss (demo_cfg []) = None \<or> feeds_reddit_rss (demo_cfg []) = Some []"
    by (simp add: demo_cfg_def)
  have h2: "feeds_reddit_rss ((demo_cfg [])\<lparr>feeds_reddit_rss := None\<rparr>) = None
            \<or> feeds_reddit_rss ((demo_cfg [])\<lparr>feeds_reddit_rss := None\<rparr>) = Some []"
    by simp
  show ?thesis
    using pick_candidate_no_feeds[OF h1] pick_candidate_no_feeds[OF h2] by simp
qed

section \<open>The one-shot guard\<close>

text \<open>
  Claim C7.  In every state in which the one-shot completion marker is present, a run
  raises the re-entrancy error before any other action and has no effect: the files are
  as they were and nothing is logged, so nothing was loaded, no candidate was picked, no
  generation call was made and no site was built.
\<close>

theorem main_one_shot:
  assumes "lite_ran_flag w \<noteq> None"
  shows "main ev w
         = (Some (RuntimeError ''Lite edition: this repository can only be executed once.''), w)"
  using assms unfolding main_def by simp

theorem main_one_shot_witness:
  "lite_ran_flag (demo_world (Some ''2023-12-31T00:00:00+00:00'') None None) \<noteq> None
   \<and> main (demo_env [demo_raw ''Fresh news'' ''http://x/c''] [])
          (demo_world (Some ''2023-12-31T00:00:00+00:00'') None None)
       = (Some (RuntimeError ''Lite edition: this repository can only be executed once.''),
          demo_world (Some ''2023-12-31T00:00:00+00:00'') None None)
   \<and> trace (snd (main (demo_env [demo_raw ''Fresh news'' ''http://x/c''] [])
                     (demo_world (Some ''2023-12-31T00:00:00+00:00'') None None))) = []"
proof -
  have h: "lite_ran_flag (demo_world (Some ''2023-12-31T00:00:00+00:00'') None None) \<noteq> None"
    by (simp add: demo_world_def)
  have t: "trace (demo_world (Some ''2023-12-31T00:00:00+00:00'') None None) = []"
    by (simp add: demo_world_def)
  show ?thesis
    using h t main_one_shot[OF h, of "demo_env [demo_raw ''Fresh news'' ''http://x/c''] []"]
    by simp
qed


section \<open>The image allowlist of the feed reader\<close>

text \<open>
  Claim C3, as amended.  For every candidate image URL, the allowlist accepts the URL
  (stripped of surrounding whitespace) exactly when the stripped URL contains
  \<open>i.redd.it/\<close> or \<open>preview.redd.it/\<close> as a substring, anywhere in it; every other URL
  yields an empty hero image.  The kind is \<open>reddit_image\<close> when the accepted image
  contains \<open>i.redd.it/\<close>, \<open>reddit_preview\<close> when it contains \<open>preview.redd.it/\<close> only, and
  \<open>none\<close> when the hero image is empty.
\<close>

theorem safe_image_substring:
  "(safe_image url = [] \<or> safe_image url = str_strip url)
   \<and> (safe_image url \<noteq> [] \<longleftrightarrow>
        str_contains ''i.redd.it/'' (str_strip url) \<or> str_contains ''preview.redd.it/'' (str_strip url))
   \<and> hero_image_kind (safe_image url)
       = (if str_contains ''i.redd.it/'' (str_strip url) then ''reddit_image''
          else if str_contains ''preview.redd.it/'' (str_strip url) then ''reddit_preview''
          else ''none'')"
proof (cases "url = []")
  case True
  then have s: "str_strip url = []" by (simp add: str_strip_def str_rstrip_def str_lstrip_def)
  show ?thesis using True s by (simp add: safe_image_def hero_image_kind_def)
next
  case False
  have e: "str_strip url = [] \<Longrightarrow> \<not> str_contains ''i.redd.it/'' (str_strip url)
           \<and> \<not> str_contains ''preview.redd.it/'' (str_strip url)"
    by simp
  show ?thesis using False e
    by (auto simp: safe_image_def hero_image_kind_def Let_def)
qed

theorem safe_image_substring_witness:
  "safe_image '' https://i.redd.it/abc.jpg '' = ''https://i.redd.it/abc.jpg''
   \<and> hero_image_kind (safe_image '' https://i.redd.it/abc.jpg '') = ''reddit_image''
   \<and> hero_image_kind (safe_image ''https://preview.redd.it/abc.jpg?width=640'') = ''reddit_preview''
   \<and> safe_image ''https://example.com/abc.jpg'' = []
   \<and> hero_image_kind (safe_image ''https://example.com/abc.jpg'') = ''none''"
proof -
  have a: "str_strip '' https://i.redd.it/abc.jpg '' = ''https://i.redd.it/abc.jpg''"
    by code_simp
  have b: "str_contains ''i.redd.it/'' ''https://i.redd.it/abc.jpg''" by code_simp
  have c: "str_strip ''https://preview.redd.it/abc.jpg?width=640''
           = ''https://preview.redd.it/abc.jpg?width=640''" by code_simp
  have d: "\<not> str_contains ''i.redd.it/'' ''https://preview.redd.it/abc.jpg?width=640''"
    "str_contains ''preview.redd.it/'' ''https://preview.redd.it/abc.jpg?width=640''"
    by code_simp+
  have e: "str_strip ''https://example.com/abc.jpg'' = ''https://example.com/abc.jpg''"
    by code_simp
  have f: "\<not> str_contains ''i.redd.it/'' ''https://example.com/abc.jpg''"
    "\<not> str_contains ''preview.redd.it/'' ''https://example.com/abc.jpg''"
    by code_simp+
  show ?thesis
    using safe_image_substring[of "'' https://i.redd.it/abc.jpg ''"]
      safe_image_substring[of "''https://preview.redd.it/abc.jpg?width=640''"]
      safe_image_substring[of "''https://example.com/abc.jpg''"]
    unfolding a c e using b d f by (auto simp: hero_image_kind_def)
qed

text \<open>
  Claim C3 as written goes by the host of the URL.  An image hosted on \<open>evil.example\<close>
  whose path contains \<open>i.redd.it/\<close> is accepted and classified as a direct image.
\<close>

theorem safe_image_host_counterexample:
  "url_host ''https://evil.example/i.redd.it/a.png'' = ''evil.example''
   \<and> safe_image ''https://evil.example/i.redd.it/a.png'' = ''https://evil.example/i.redd.it/a.png''
   \<and> hero_image_kind (safe_image ''https://evil.example/i.redd.it/a.png'') = ''reddit_image''"
  by code_simp


section \<open>Related articles\<close>

lemma insort_key_map:
  "insort_key f (g x) (map g xs) = map g (insort_key (\<lambda>a. f (g a)) x xs)"
  by (induction xs) auto

lemma sort_key_map: "sort_key f (map g xs) = map g (sort_key (\<lambda>a. f (g a)) xs)"
  by (induction xs) (auto simp: insort_key_map)

lemma related_articles_eq:
  "related_articles current articles k
   = filter (\<lambda>a. title_similarity current a > 5 / 100)
       (take k (sort_key (\<lambda>a. - title_similarity current a)
                  (filter (\<lambda>a. map_of a ''id'' \<noteq> map_of current ''id'') articles)))"
  unfolding related_articles_def Let_def title_similarity_def[symmetric]
  by (simp add: sort_key_map take_map filter_map o_def)

text \<open>
  Claim C6.  For every article and every archive, the related-articles list excludes the
  article itself (and every article with its id), contains only articles of the archive
  whose title-token Jaccard similarity with the article's title exceeds 0.05, has at most
  6 elements, and is ordered by descending similarity; articles of equal similarity stand
  in archive order.
\<close>

theorem related_articles_ranking:
  "current \<notin> set (related_articles current articles 6)
   \<and> (\<forall>a \<in> set (related_articles current articles 6).
         a \<in> set articles \<and> map_of a ''id'' \<noteq> map_of current ''id''
         \<and> title_similarity current a > 5 / 100)
   \<and> length (related_articles current articles 6) \<le> 6
   \<and> sorted_wrt (\<lambda>a b. title_similarity current a \<ge> title_similarity current b)
        (related_articles current articles 6)
   \<and> (\<forall>v. prefix (filter (\<lambda>a. title_similarity current a = v) (related_articles current articles 6))
                  (filter (\<lambda>a. title_similarity current a = v)
                     (filter (\<lambda>a. map_of a ''id'' \<noteq> map_of current ''id'') articles)))"
proof -
  let ?sim = "title_similarity current"
  let ?Q = "\<lambda>a. map_of a ''id'' \<noteq> map_of current ''id''"
  let ?T = "sort_key (\<lambda>a. - ?sim a) (filter ?Q articles)"
  let ?r = "related_articles current articles 6"
  have r: "?r = filter (\<lambda>a. ?sim a > 5 / 100) (take 6 ?T)"
    by (rule related_articles_eq)
  have mem: "a \<in> set articles \<and> ?Q a \<and> ?sim a > 5 / 100" if "a \<in> set ?r" for a
  proof -
    from that have t: "a \<in> set (take 6 ?T)" and s: "?sim a > 5 / 100" unfolding r by auto
    from t have "a \<in> set ?T" by (rule in_set_takeD)
    then show ?thesis using s by simp
  qed
  have self: "current \<notin> set ?r" using mem by blast
  have len: "length ?r \<le> 6"
  proof -
    have "length ?r \<le> length (take 6 ?T)" unfolding r by (rule length_filter_le)
    then show ?thesis by simp
  qed
  have "sorted (map (\<lambda>a. - ?sim a) ?T)" by (rule sorted_sort_key)
  then have "sorted_wrt (\<lambda>a b. - ?sim a \<le> - ?sim b) ?T" by (simp add: sorted_map)
  then have "sorted_wrt (\<lambda>a b. ?sim a \<ge> ?sim b) ?T" by simp
  then have "sorted_wrt (\<lambda>a b. ?sim a \<ge> ?sim b) (take 6 ?T)" by (rule sorted_wrt_take)
  then have srt: "sorted_wrt (\<lambda>a b. ?sim a \<ge> ?sim b) ?r"
    unfolding r by (rule sorted_wrt_filter)
  have ties: "prefix (filter (\<lambda>a. ?sim a = v) ?r) (filter (\<lambda>a. ?sim a = v) (filter ?Q articles))"
    for v
  proof (cases "v > 5 / 100")
    case True
    then have "filter (\<lambda>a. ?sim a = v) ?r = filter (\<lambda>a. ?sim a = v) (take 6 ?T)"
      unfolding r filter_filter by (intro filter_cong) auto
    moreover have "prefix (filter (\<lambda>a. ?sim a = v) (take 6 ?T)) (filter (\<lambda>a. ?sim a = v) ?T)"
      by (rule filter_mono_prefix) (rule take_is_prefix)
    moreover have "filter (\<lambda>a. ?sim a = v) ?T = filter (\<lambda>a. ?sim a = v) (filter ?Q articles)"
      using sort_key_stable[of "\<lambda>a. - ?sim a" "- v" "filter ?Q articles"] by simp
    ultimately show ?thesis by simp
  next
    case False
    then have "filter (\<lambda>a. ?sim a = v) ?r = []"
      unfolding r filter_filter by (auto simp: filter_empty_conv)
    then show ?thesis by simp
  qed
  show ?thesis using self mem len srt ties by blast
qed

theorem related_articles_ranking_witness:
  "related_articles (demo_article ''a1'' ''SpaceX launches new rocket today'') demo_archive 6
     = [demo_article ''a2'' ''SpaceX launches new rocket this morning'',
        demo_article ''a5'' ''New rocket'', demo_article ''a6'' ''Today in history'',
        demo_article ''a7'' ''SpaceX news'', demo_article ''a8'' ''Launches galore'',
        demo_article ''a9'' ''Rocket league'']
   \<and> demo_article ''a1'' ''SpaceX launches new rocket today''
        \<notin> set (related_articles (demo_article ''a1'' ''SpaceX launches new rocket today'')
                  demo_archive 6)
   \<and> length (related_articles (demo_article ''a1'' ''SpaceX launches new rocket today'')
                demo_archive 6) \<le> 6"
proof -
  have e: "related_articles (demo_article ''a1'' ''SpaceX launches new rocket today'')
             demo_archive 6
           = [demo_article ''a2'' ''SpaceX launches new rocket this morning'',
              demo_article ''a5'' ''New rocket'', demo_article ''a6'' ''Today in history'',
              demo_article ''a7'' ''SpaceX news'', demo_article ''a8'' ''Launches galore'',
              demo_article ''a9'' ''Rocket league'']"
    by code_simp
  show ?thesis
    using related_articles_ranking
            [of "demo_article ''a1'' ''SpaceX launches new rocket today''" demo_archive]
    unfolding e by blast
qed


section \<open>Sanitization\<close>

lemma mso_other: "c \<noteq> CHR ''<'' \<Longrightarrow> match_script_open (c # cs) = None"
  by simp

lemma mso_Some_lt: "match_script_open (c # cs) = Some r \<Longrightarrow> c = CHR ''<''"
  by (simp split: if_splits)

lemma lt_not_space: "\<not> py_isspace (CHR ''<'')"
  by (simp add: py_isspace_def)

lemma amp_not_space: "\<not> py_isspace (CHR ''&'')"
  by (simp add: py_isspace_def)

lemma lt_amp_not_word: "\<not> py_isword (CHR ''<'')" "\<not> py_isword (CHR ''&'')"
  by (simp_all add: py_isword_def)

lemma lower_amp: "lower_char (CHR ''&'') = CHR ''&''"
  by (simp add: lower_char_def)

lemma sanitize_Some:
  "match_script_open (c # cs) = Some r \<Longrightarrow> sanitize_llm_html (c # cs) = ''&lt;script'' @ sanitize_llm_html r"
  by simp

lemma sanitize_None:
  "match_script_open (c # cs) = None \<Longrightarrow> sanitize_llm_html (c # cs) = c # sanitize_llm_html cs"
  by simp

lemma sanitize_unchanged: "\<not> has_script_open s \<Longrightarrow> sanitize_llm_html s = s"
  by (induction s) (auto simp del: match_script_open.simps)

lemma has_script_open_append:
  "CHR ''<'' \<notin> set a \<Longrightarrow> has_script_open (a @ b) = has_script_open b"
  by (induction a) (auto simp del: match_script_open.simps simp: mso_other)

lemma dropWhile_sanitize:
  "dropWhile py_isspace (sanitize_llm_html s) = sanitize_llm_html (dropWhile py_isspace s)"
proof (induction s)
  case Nil
  then show ?case by simp
next
  case (Cons c cs)
  show ?case
  proof (cases "py_isspace c")
    case True
    then have "c \<noteq> CHR ''<''" using lt_not_space by auto
    then have "sanitize_llm_html (c # cs) = c # sanitize_llm_html cs"
      by (simp add: sanitize_None mso_other del: match_script_open.simps sanitize_llm_html.simps)
    then show ?thesis using True Cons by simp
  next
    case False
    show ?thesis
    proof (cases "match_script_open (c # cs)")
      case None
      then show ?thesis using False
        by (simp add: sanitize_None del: match_script_open.simps sanitize_llm_html.simps)
    next
      case (Some r)
      then show ?thesis using False amp_not_space
        by (simp add: sanitize_Some del: match_script_open.simps sanitize_llm_html.simps)
    qed
  qed
qed

lemma prefix_sanitize:
  "CHR ''&'' \<notin> set p \<Longrightarrow> prefix p (str_lower (sanitize_llm_html s)) \<Longrightarrow>
   prefix p (str_lower s) \<and> drop (length p) (sanitize_llm_html s) = sanitize_llm_html (drop (length p) s)"
proof (induction p arbitrary: s)
  case Nil
  then show ?case by simp
next
  case (Cons x p)
  show ?case
  proof (cases s)
    case Nil
    then show ?thesis using Cons.prems by (simp add: str_lower_def)
  next
    case (Cons c cs)
    show ?thesis
    proof (cases "match_script_open (c # cs)")
      case None
      then have san: "sanitize_llm_html s = c # sanitize_llm_html cs"
        using Cons by (simp del: match_script_open.simps)
      with Cons.prems(2) have x: "x = lower_char c"
        and p: "prefix p (str_lower (sanitize_llm_html cs))"
        by (simp_all add: str_lower_def)
      from Cons.prems(1) have "CHR ''&'' \<notin> set p" by simp
      from Cons.IH[OF this p] show ?thesis using x san Cons
        by (simp add: str_lower_def)
    next
      case (Some r)
      then have "sanitize_llm_html s = ''&lt;script'' @ sanitize_llm_html r"
        using Cons by (simp del: match_script_open.simps)
      with Cons.prems(2) have "x = CHR ''&''"
        by (simp add: str_lower_def lower_amp)
      with Cons.prems(1) show ?thesis by simp
    qed
  qed
qed

lemma word_boundary_sanitize:
  "word_boundary_after (sanitize_llm_html s) = word_boundary_after s"
proof (cases s)
  case Nil
  then show ?thesis by simp
next
  case (Cons c cs)
  show ?thesis
  proof (cases "match_script_open (c # cs)")
    case None
    then show ?thesis using Cons
      by (simp add: word_boundary_after_def del: match_script_open.simps)
  next
    case (Some r)
    then have "c = CHR ''<''" by (rule mso_Some_lt)
    then show ?thesis using Some Cons lt_amp_not_word
      by (simp add: word_boundary_after_def del: match_script_open.simps)
  qed
qed

lemma mso_sanitize_None:
  assumes "match_script_open (c # cs) = None"
  shows "match_script_open (c # sanitize_llm_html cs) = None"
proof (cases "c = CHR ''<''")
  case False
  then show ?thesis by (rule mso_other)
next
  case True
  let ?r = "dropWhile py_isspace cs"
  have no: "\<not> (ci_prefix ''script'' ?r \<and> word_boundary_after (drop 6 ?r))"
    using assms True by (auto simp: Let_def split: if_splits)
  have "\<not> (ci_prefix ''script'' (sanitize_llm_html ?r)
            \<and> word_boundary_after (drop 6 (sanitize_llm_html ?r)))"
  proof
    assume a: "ci_prefix ''script'' (sanitize_llm_html ?r)
               \<and> word_boundary_after (drop 6 (sanitize_llm_html ?r))"
    have amp: "CHR ''&'' \<notin> set ''script''" by simp
    from a have "prefix ''script'' (str_lower (sanitize_llm_html ?r))"
      by (simp add: ci_prefix_def)
    then have "prefix ''script'' (str_lower ?r)
               \<and> drop (length ''script'') (sanitize_llm_html ?r)
                   = sanitize_llm_html (drop (length ''script'') ?r)"
      by (rule prefix_sanitize[OF amp])
    moreover have "length ''script'' = 6" by simp
    ultimately have p: "prefix ''script'' (str_lower ?r)"
      and d: "drop 6 (sanitize_llm_html ?r) = sanitize_llm_html (drop 6 ?r)"
      by (simp_all only:)
    from a d have "word_boundary_after (drop 6 ?r)"
      by (simp add: word_boundary_sanitize)
    with p no show False by (simp add: ci_prefix_def)
  qed
  then show ?thesis using True
    by (simp add: Let_def dropWhile_sanitize)
qed

lemma sanitize_no_opener: "\<not> has_script_open (sanitize_llm_html s)"
proof (induction s rule: sanitize_llm_html.induct)
  case 1
  then show ?case by simp
next
  case (2 c cs)
  show ?case
  proof (cases "match_script_open (c # cs)")
    case None
    then have "sanitize_llm_html (c # cs) = c # sanitize_llm_html cs" by (rule sanitize_None)
    moreover have "match_script_open (c # sanitize_llm_html cs) = None"
      using None by (rule mso_sanitize_None)
    moreover have "\<not> has_script_open (sanitize_llm_html cs)" using 2(1)[OF None] .
    ultimately show ?thesis by (simp del: match_script_open.simps sanitize_llm_html.simps)
  next
    case (Some r)
    then have "sanitize_llm_html (c # cs) = ''&lt;script'' @ sanitize_llm_html r"
      by (rule sanitize_Some)
    moreover have "has_script_open (''&lt;script'' @ sanitize_llm_html r)
                   = has_script_open (sanitize_llm_html r)"
      by (rule has_script_open_append) simp
    moreover have "\<not> has_script_open (sanitize_llm_html r)" using 2(2)[OF Some] .
    ultimately show ?thesis by (simp del: match_script_open.simps sanitize_llm_html.simps)
  qed
qed


lemma sanitize_plain_prefix:
  "CHR ''<'' \<notin> set a \<Longrightarrow> sanitize_llm_html (a @ s) = a @ sanitize_llm_html s"
  by (induction a) (auto simp del: match_script_open.simps simp: mso_other)

text \<open>
  Claim C4, as amended.  Call a script opener a match of the pattern the code uses: \<open><\<close>,
  any run of whitespace, the letters \<open>script\<close> in any case, and then the end of the string
  or a character that is no word character.  For every string body, sanitization rewrites
  every script opener, taken from left to right, to \<open>&lt;script\<close>; the output contains no
  script opener; and every body that contains no script opener is returned unchanged.
\<close>

theorem sanitize_llm_html_openers:
  "(\<not> has_script_open s \<longrightarrow> sanitize_llm_html s = s)
   \<and> \<not> has_script_open (sanitize_llm_html s)
   \<and> (\<forall>r. match_script_open s = Some r \<longrightarrow>
          sanitize_llm_html s = ''&lt;script'' @ sanitize_llm_html r)
   \<and> (\<forall>a. CHR ''<'' \<notin> set a \<longrightarrow> sanitize_llm_html (a @ s) = a @ sanitize_llm_html s)"
proof (intro conjI allI impI)
  show "sanitize_llm_html s = s" if "\<not> has_script_open s"
    using that by (rule sanitize_unchanged)
  show "\<not> has_script_open (sanitize_llm_html s)"
    by (rule sanitize_no_opener)
  show "sanitize_llm_html s = ''&lt;script'' @ sanitize_llm_html r"
    if "match_script_open s = Some r" for r
    using that by (cases s) (simp_all del: match_script_open.simps(2) add: sanitize_Some)
  show "sanitize_llm_html (a @ s) = a @ sanitize_llm_html s" if "CHR ''<'' \<notin> set a" for a
    using that by (rule sanitize_plain_prefix)
qed

theorem sanitize_llm_html_openers_witness:
  "sanitize_llm_html ''<p>No <em>scripts</em> here</p>'' = ''<p>No <em>scripts</em> here</p>''
   \<and> sanitize_llm_html ''<SCRIPT src=x></SCRIPT> text'' = ''&lt;script'' @ sanitize_llm_html '' src=x></SCRIPT> text''
   \<and> \<not> has_script_open (sanitize_llm_html ''<SCRIPT src=x></SCRIPT> text'')"
proof -
  have a: "\<not> has_script_open ''<p>No <em>scripts</em> here</p>''" by code_simp
  have b: "match_script_open ''<SCRIPT src=x></SCRIPT> text'' = Some '' src=x></SCRIPT> text''"
    by code_simp
  show ?thesis
    using a b sanitize_llm_html_openers[of "''<p>No <em>scripts</em> here</p>''"]
      sanitize_llm_html_openers[of "''<SCRIPT src=x></SCRIPT> text''"]
    by blast
qed

text \<open>
  Claim C4 as written goes by the text \<open><script\<close>.  The body \<open>< script>alert(1)\<close> does not
  contain \<open><script\<close> and is rewritten all the same; the body \<open><scripts>\<close> contains
  \<open><script\<close> and is returned as it is.
\<close>

theorem sanitize_llm_html_counterexample:
  "\<not> str_contains ''<script'' ''< script>alert(1)''
   \<and> sanitize_llm_html ''< script>alert(1)'' = ''&lt;script>alert(1)''
   \<and> str_contains ''<script'' (sanitize_llm_html ''<scripts>'')"
  by code_simp


section \<open>Parsing the completion\<close>

lemma first_some_Some:
  "first_some f xs = Some y \<Longrightarrow> \<exists>x \<in> set xs. f x = Some y"
  by (induction xs) (auto split: option.splits)

lemma first_some_None: "(\<And>x. x \<in> set xs \<Longrightarrow> f x = None) \<Longrightarrow> first_some f xs = None"
  by (induction xs) auto

lemma first_some_skip:
  "(\<And>a. a \<in> set as \<Longrightarrow> f a = None) \<Longrightarrow> f x = Some y \<Longrightarrow>
   first_some f (as @ x # bs) = Some y"
  by (induction as) auto

lemma ws_splits_nonspace: "s = [] \<or> \<not> py_isspace (hd s) \<Longrightarrow> ws_splits s = [s]"
  by (cases s) auto

lemma ws_splits_suffix: "r \<in> set (ws_splits s) \<Longrightarrow> suffix r s"
  by (induction s) (auto simp: suffix_Cons split: if_splits)

lemma eat_newline_Some: "eat_newline s = Some r \<longleftrightarrow> s = CHR 0x0A # r"
  by (cases s) (auto simp: eat_newline_def)

text \<open>Behind a title without line feed that ends in a visible character no gap starts.\<close>

lemma ws_splits_in_word:
  assumes "t \<noteq> []" "\<not> py_isspace (last t)" "r \<in> set (ws_splits (t @ x))"
  shows "\<exists>t'. t' \<noteq> [] \<and> suffix t' t \<and> r = t' @ x"
  using assms
proof (induction t)
  case Nil
  then show ?case by simp
next
  case (Cons c t)
  show ?case
  proof (cases "py_isspace c")
    case False
    then have "r = (c # t) @ x" using Cons.prems(3) by simp
    then show ?thesis by (intro exI[of _ "c # t"]) simp
  next
    case True
    then have t: "t \<noteq> []" using Cons.prems(2) by auto
    then have l: "\<not> py_isspace (last t)" using Cons.prems(2) by simp
    from Cons.prems(3) True have "r \<in> set (ws_splits (t @ x)) \<or> r = (c # t) @ x" by auto
    then show ?thesis
    proof
      assume "r \<in> set (ws_splits (t @ x))"
      from Cons.IH[OF t l this] obtain t' where "t' \<noteq> []" "suffix t' t" "r = t' @ x" by blast
      then show ?thesis by (intro exI[of _ t']) (simp add: suffix_Cons)
    next
      assume "r = (c # t) @ x"
      then show ?thesis by (intro exI[of _ "c # t"]) simp
    qed
  qed
qed

lemma no_gap_in_title:
  assumes "t \<noteq> []" "\<not> py_isspace (last t)" "CHR 0x0A \<notin> set t"
  shows "match_blank_gap (t @ x) = None"
  unfolding match_blank_gap_def
proof (rule first_some_None)
  fix r assume "r \<in> set (ws_splits (t @ x))"
  from ws_splits_in_word[OF assms(1,2) this]
  obtain t' where t': "t' \<noteq> []" "suffix t' t" "r = t' @ x" by blast
  then have "hd r \<in> set t" by (cases t') (auto simp: suffix_def)
  then have "hd r \<noteq> CHR 0x0A" using assms(3) by auto
  moreover have "r \<noteq> []" using t' by simp
  ultimately have "eat_newline r = None" by (cases r) (auto simp: eat_newline_def)
  then show "(case eat_newline r of None \<Rightarrow> None
              | Some r2 \<Rightarrow> first_some eat_newline (ws_splits r2)) = None" by simp
qed

lemma lf_space: "py_isspace (CHR 0x0A)"
  by (simp add: py_isspace_def)

lemma gap_then_body:
  assumes "b \<noteq> []" "\<not> py_isspace (hd b)"
  shows "match_blank_gap (CHR 0x0A # CHR 0x0A # b) = Some b"
proof -
  have w: "ws_splits b = [b]" using assms by (simp add: ws_splits_nonspace)
  have e: "eat_newline b = None" using assms lf_space by (cases b) (auto simp: eat_newline_def)
  have l: "eat_newline (CHR 0x0A # r) = Some r" for r by (simp add: eat_newline_def)
  show ?thesis
    by (simp add: match_blank_gap_def lf_space w e l)
qed


lemma rstrip_prefix: "prefix (str_rstrip s) s"
proof -
  have "suffix (dropWhile py_isspace (rev s)) (rev s)" by (rule suffix_dropWhile)
  then have "prefix (rev (dropWhile py_isspace (rev s))) (rev (rev s))"
    by (simp only: suffix_to_prefix)
  then show ?thesis by (simp add: str_rstrip_def)
qed

lemma strip_head: "str_strip s = [] \<or> \<not> py_isspace (hd (str_strip s))"
proof (cases "str_strip s = []")
  case True
  then show ?thesis by simp
next
  case False
  let ?l = "dropWhile py_isspace s"
  have p: "prefix (str_strip s) ?l"
    unfolding str_strip_def str_lstrip_def by (rule rstrip_prefix)
  have "?l \<noteq> []"
  proof
    assume "?l = []"
    with p have "str_strip s = []" by simp
    with False show False by simp
  qed
  then have "\<not> py_isspace (hd ?l)" by (rule hd_dropWhile)
  moreover have "hd (str_strip s) = hd ?l" using p False by (auto simp: prefix_def)
  ultimately show ?thesis by simp
qed

lemma strip_id:
  assumes "s \<noteq> []" "\<not> py_isspace (hd s)" "\<not> py_isspace (last s)"
  shows "str_strip s = s"
proof -
  have "dropWhile py_isspace s = s" using assms(1,2) by (cases s) auto
  moreover have "dropWhile py_isspace (rev s) = rev s"
    using assms(1,3) by (cases "rev s") (auto simp: last_rev[symmetric] simp del: last_rev)
  ultimately show ?thesis by (simp add: str_strip_def str_lstrip_def str_rstrip_def)
qed


lemma lazy_title:
  assumes t: "t \<noteq> []" "\<not> py_isspace (last t)" "CHR 0x0A \<notin> set t"
    and b: "b \<noteq> []" "\<not> py_isspace (hd b)"
  shows "first_some (\<lambda>(g1, r2). map_option (\<lambda>g2. (g1, g2)) (match_blank_gap r2))
           (lazy_splits (t @ CHR 0x0A # CHR 0x0A # b)) = Some (t, b)"
proof -
  let ?R = "t @ CHR 0x0A # CHR 0x0A # b"
  let ?f = "\<lambda>(g1, r2). map_option (\<lambda>g2. (g1, g2)) (match_blank_gap r2)"
  let ?g = "\<lambda>k. (take k ?R, drop k ?R)"
  let ?n = "length t"
  have n: "1 \<le> ?n" "?n \<le> length ?R" using t(1) by (simp_all add: Suc_le_eq)
  have "Suc (length ?R) = ?n + (Suc (length ?R) - ?n)" by simp
  moreover have "[1..<?n + (Suc (length ?R) - ?n)]
                 = [1..<?n] @ [?n..<?n + (Suc (length ?R) - ?n)]"
    using n(1) by (rule upt_add_eq_append)
  ultimately have "[1..<Suc (length ?R)] = [1..<?n] @ [?n..<Suc (length ?R)]"
    by (simp only:)
  also have "[?n..<Suc (length ?R)] = ?n # [Suc ?n..<Suc (length ?R)]"
    by (rule upt_conv_Cons) simp
  finally have sp: "lazy_splits ?R = map ?g [1..<?n] @ ?g ?n # map ?g [Suc ?n..<Suc (length ?R)]"
    by (simp add: lazy_splits_def)
  have early: "?f a = None" if "a \<in> set (map ?g [1..<?n])" for a
  proof -
    from that obtain k where k: "1 \<le> k" "k < ?n" "a = ?g k" by auto
    let ?t' = "drop k t"
    have "?t' \<noteq> []" using k by simp
    moreover have "\<not> py_isspace (last ?t')" using k t(2) by simp
    moreover have "CHR 0x0A \<notin> set ?t'" using t(3) by (auto dest: in_set_dropD)
    ultimately have "match_blank_gap (?t' @ CHR 0x0A # CHR 0x0A # b) = None"
      by (rule no_gap_in_title)
    then show ?thesis using k by simp
  qed
  have hit: "?f (?g ?n) = Some (t, b)"
    using gap_then_body[OF b] by simp
  show ?thesis unfolding sp using early hit by (rule first_some_skip)
qed

lemma lower_title: "str_lower ''TITLE: '' = ''title: ''"
  by code_simp

lemma nonspace_T: "\<not> py_isspace (CHR ''T'')"
  by (simp add: py_isspace_def)

lemma space_space: "py_isspace (CHR '' '')"
  by (simp add: py_isspace_def)

lemma match_exact_format:
  assumes t: "t \<noteq> []" "\<not> py_isspace (hd t)" "\<not> py_isspace (last t)" "CHR 0x0A \<notin> set t"
    and b: "b \<noteq> []" "\<not> py_isspace (hd b)"
  shows "match_title_body (''TITLE: '' @ t @ CHR 0x0A # CHR 0x0A # b) = Some (t, b)"
proof -
  let ?R = "t @ CHR 0x0A # CHR 0x0A # b"
  have ci: "ci_prefix ''title:'' (''TITLE: '' @ ?R)"
    using lower_title by (simp add: ci_prefix_def str_lower_def)
  have w: "ws_splits (drop 6 (''TITLE: '' @ ?R)) = [?R, CHR '' '' # ?R]"
    using t(1,2) space_space by (cases t) simp_all
  have "ws_splits (''TITLE: '' @ ?R) = [''TITLE: '' @ ?R]"
    using nonspace_T by simp
  then show ?thesis
    unfolding match_title_body_def using ci w lazy_title[OF t(1,3,4) b]
    by (simp del: append.simps)
qed

lemma parse_exact_format:
  assumes t: "t \<noteq> []" "\<not> py_isspace (hd t)" "\<not> py_isspace (last t)" "CHR 0x0A \<notin> set t"
    and b: "b \<noteq> []" "\<not> py_isspace (hd b)" "\<not> py_isspace (last b)"
  shows "parse_llm_output title (''TITLE: '' @ t @ CHR 0x0A # CHR 0x0A # b)
         = (t, sanitize_llm_html b)"
proof -
  let ?out = "''TITLE: '' @ t @ CHR 0x0A # CHR 0x0A # b"
  have "last ?out = last b" using b(1) by simp
  then have "str_strip ?out = ?out"
    using nonspace_T b(3) by (intro strip_id) simp_all
  moreover have "str_strip t = t" using t by (intro strip_id)
  moreover have "str_strip b = b" using b by (intro strip_id)
  ultimately show ?thesis
    unfolding parse_llm_output_def Let_def using match_exact_format[OF t b(1,2)]
    by (simp del: append.simps)
qed


lemma count_suffix: "suffix a b \<Longrightarrow> count_list a x \<le> count_list b x"
  by (auto simp: suffix_def)

lemma gap_two_newlines:
  assumes "match_blank_gap r = Some g"
  shows "2 \<le> count_list r (CHR 0x0A)"
proof -
  from assms obtain r1 where r1: "r1 \<in> set (ws_splits r)"
    and h: "(case eat_newline r1 of None \<Rightarrow> None
             | Some r2 \<Rightarrow> first_some eat_newline (ws_splits r2)) = Some g"
    unfolding match_blank_gap_def by (blast dest: first_some_Some)
  from h obtain r2 where r2: "eat_newline r1 = Some r2"
    and f: "first_some eat_newline (ws_splits r2) = Some g"
    by (auto split: option.splits)
  from f obtain r3 where r3: "r3 \<in> set (ws_splits r2)" "eat_newline r3 = Some g"
    by (blast dest: first_some_Some)
  have "1 \<le> count_list r3 (CHR 0x0A)" using r3(2) by (simp add: eat_newline_Some)
  also have "\<dots> \<le> count_list r2 (CHR 0x0A)"
    using r3(1) by (intro count_suffix ws_splits_suffix)
  finally have "2 \<le> count_list r1 (CHR 0x0A)" using r2 by (simp add: eat_newline_Some)
  also have "\<dots> \<le> count_list r (CHR 0x0A)"
    using r1 by (intro count_suffix ws_splits_suffix)
  finally show ?thesis .
qed

lemma match_needs_header_and_gap:
  assumes "match_title_body s = Some (g1, g2)"
  shows "(\<exists>r0 \<in> set (ws_splits s). ci_prefix ''title:'' r0) \<and> 2 \<le> count_list s (CHR 0x0A)"
proof -
  let ?inner = "\<lambda>r1. first_some (\<lambda>(g1, r2). map_option (\<lambda>g2. (g1, g2)) (match_blank_gap r2))
                           (lazy_splits r1)"
  from assms obtain r0 where r0: "r0 \<in> set (ws_splits s)"
    and h: "(if ci_prefix ''title:'' r0 then first_some ?inner (ws_splits (drop 6 r0)) else None)
            = Some (g1, g2)"
    unfolding match_title_body_def by (blast dest: first_some_Some)
  from h have ci: "ci_prefix ''title:'' r0"
    and f: "first_some ?inner (ws_splits (drop 6 r0)) = Some (g1, g2)"
    by (auto split: if_splits)
  from f obtain r1 where r1: "r1 \<in> set (ws_splits (drop 6 r0))" "?inner r1 = Some (g1, g2)"
    by (blast dest: first_some_Some)
  from r1(2) obtain p where p: "p \<in> set (lazy_splits r1)"
    "(case p of (g1, r2) \<Rightarrow> map_option (\<lambda>g2. (g1, g2)) (match_blank_gap r2)) = Some (g1, g2)"
    by (blast dest: first_some_Some)
  from p(1) obtain k where k: "p = (take k r1, drop k r1)" by (auto simp: lazy_splits_def)
  from p(2) k have "match_blank_gap (drop k r1) = Some g2" by auto
  then have "2 \<le> count_list (drop k r1) (CHR 0x0A)" by (rule gap_two_newlines)
  also have "\<dots> \<le> count_list r1 (CHR 0x0A)" by (intro count_suffix suffix_drop)
  also have "\<dots> \<le> count_list (drop 6 r0) (CHR 0x0A)"
    using r1(1) by (intro count_suffix ws_splits_suffix)
  also have "\<dots> \<le> count_list r0 (CHR 0x0A)" by (intro count_suffix suffix_drop)
  also have "\<dots> \<le> count_list s (CHR 0x0A)" using r0 by (intro count_suffix ws_splits_suffix)
  finally show ?thesis using r0 ci by blast
qed

lemma parse_fallback:
  assumes "\<not> ci_prefix ''title:'' (str_strip out) \<or> count_list (str_strip out) (CHR 0x0A) < 2"
  shows "parse_llm_output title out = (title, sanitize_llm_html (str_strip out))"
proof -
  have "ws_splits (str_strip out) = [str_strip out]"
    using strip_head[of out] by (intro ws_splits_nonspace)
  then have "match_title_body (str_strip out) = None"
    using assms match_needs_header_and_gap[of "str_strip out"]
    by (cases "match_title_body (str_strip out)") auto
  then show ?thesis by (simp add: parse_llm_output_def)
qed


text \<open>
  Claim C5, as amended.  If the completion is exactly \<open>TITLE: \<close>, a title, two line feeds
  and a body, where the title is a non-empty single line and neither the title nor the
  body starts or ends with whitespace, the result is that title and the sanitized body.
  If the stripped completion does not begin with \<open>TITLE:\<close> in any letter case, or holds
  fewer than two line feeds, the result is the title of the candidate (stripped) and the
  sanitized stripped completion.  In particular the completion \<open>TITLE: Foo Bar\<close>, blank
  line, \<open><p>Body</p>\<close> yields the title \<open>Foo Bar\<close> and the body \<open><p>Body</p>\<close>.
\<close>

theorem parse_llm_output_contract:
  "(t \<noteq> [] \<and> \<not> py_isspace (hd t) \<and> \<not> py_isspace (last t) \<and> CHR 0x0A \<notin> set t
      \<and> b \<noteq> [] \<and> \<not> py_isspace (hd b) \<and> \<not> py_isspace (last b)
      \<longrightarrow> parse_llm_output title (''TITLE: '' @ t @ CHR 0x0A # CHR 0x0A # b)
           = (t, sanitize_llm_html b))
   \<and> (\<not> ci_prefix ''title:'' (str_strip out) \<or> count_list (str_strip out) (CHR 0x0A) < 2
      \<longrightarrow> parse_llm_output title out = (title, sanitize_llm_html (str_strip out)))
   \<and> parse_llm_output title (''TITLE: Foo Bar'' @ CHR 0x0A # CHR 0x0A # ''<p>Body</p>'')
       = (''Foo Bar'', ''<p>Body</p>'')
   \<and> (chat ev (str_strip (dict_get item ''title'' [])) (str_strip (dict_get item ''link'' []))
             (str_strip (dict_get item ''summary'' [])) = Inr out
      \<longrightarrow> deepseek_article ev item
           = Inr (parse_llm_output (str_strip (dict_get item ''title'' [])) out))"
proof (intro conjI impI)
  show "parse_llm_output title (''TITLE: '' @ t @ CHR 0x0A # CHR 0x0A # b)
        = (t, sanitize_llm_html b)"
    if "t \<noteq> [] \<and> \<not> py_isspace (hd t) \<and> \<not> py_isspace (last t) \<and> CHR 0x0A \<notin> set t
        \<and> b \<noteq> [] \<and> \<not> py_isspace (hd b) \<and> \<not> py_isspace (last b)"
    using that by (intro parse_exact_format) simp_all
  show "parse_llm_output title out = (title, sanitize_llm_html (str_strip out))"
    if "\<not> ci_prefix ''title:'' (str_strip out) \<or> count_list (str_strip out) (CHR 0x0A) < 2"
    using that by (rule parse_fallback)
  have h: "\<not> py_isspace (hd ''Foo Bar'')" "\<not> py_isspace (last ''Foo Bar'')"
    "\<not> py_isspace (hd ''<p>Body</p>'')" "\<not> py_isspace (last ''<p>Body</p>'')"
    by (simp_all add: py_isspace_def)
  have s: "sanitize_llm_html ''<p>Body</p>'' = ''<p>Body</p>''" by code_simp
  have "parse_llm_output title (''TITLE: '' @ ''Foo Bar'' @ CHR 0x0A # CHR 0x0A # ''<p>Body</p>'')
        = (''Foo Bar'', sanitize_llm_html ''<p>Body</p>'')"
    using h by (intro parse_exact_format) simp_all
  then show "parse_llm_output title (''TITLE: Foo Bar'' @ CHR 0x0A # CHR 0x0A # ''<p>Body</p>'')
             = (''Foo Bar'', ''<p>Body</p>'')"
    unfolding s by simp
  show "deepseek_article ev item
        = Inr (parse_llm_output (str_strip (dict_get item ''title'' [])) out)"
    if "chat ev (str_strip (dict_get item ''title'' [])) (str_strip (dict_get item ''link'' []))
             (str_strip (dict_get item ''summary'' [])) = Inr out"
    using that by (simp add: deepseek_article_def)
qed

theorem parse_llm_output_contract_witness:
  "parse_llm_output ''Original'' (''TITLE: '' @ ''Five Ways'' @ CHR 0x0A # CHR 0x0A # ''<p>One</p>'')
     = (''Five Ways'', ''<p>One</p>'')
   \<and> parse_llm_output ''Original'' ''<p>No header</p>'' = (''Original'', ''<p>No header</p>'')
   \<and> deepseek_article (demo_env [] ''<p>No header</p>'') (demo_entry ''Original'' ''http://x/a'')
       = Inr (''Original'', ''<p>No header</p>'')"
proof -
  have a: "''Five Ways'' \<noteq> [] \<and> \<not> py_isspace (hd ''Five Ways'')
           \<and> \<not> py_isspace (last ''Five Ways'') \<and> CHR 0x0A \<notin> set ''Five Ways''
           \<and> ''<p>One</p>'' \<noteq> [] \<and> \<not> py_isspace (hd ''<p>One</p>'')
           \<and> \<not> py_isspace (last ''<p>One</p>'')"
    by (simp add: py_isspace_def)
  have b: "\<not> ci_prefix ''title:'' (str_strip ''<p>No header</p>'')
           \<or> count_list (str_strip ''<p>No header</p>'') (CHR 0x0A) < 2"
    by code_simp
  have c: "chat (demo_env [] ''<p>No header</p>'')
             (str_strip (dict_get (demo_entry ''Original'' ''http://x/a'') ''title'' []))
             (str_strip (dict_get (demo_entry ''Original'' ''http://x/a'') ''link'' []))
             (str_strip (dict_get (demo_entry ''Original'' ''http://x/a'') ''summary'' []))
           = Inr ''<p>No header</p>''"
    by (simp add: demo_env_def)
  have d: "sanitize_llm_html ''<p>One</p>'' = ''<p>One</p>''"
    "sanitize_llm_html (str_strip ''<p>No header</p>'') = ''<p>No header</p>''"
    "str_strip (dict_get (demo_entry ''Original'' ''http://x/a'') ''title'' []) = ''Original''"
    by code_simp+
  show ?thesis
    using a b c
      parse_llm_output_contract[of "''Five Ways''" "''<p>One</p>''" "''Original''"
        "''<p>No header</p>''" "demo_env [] ''<p>No header</p>''"
        "demo_entry ''Original'' ''http://x/a''"]
    unfolding d by simp
qed

text \<open>
  Claim C5 as written returns the entire completion as the body when the format is not
  met.  A completion without header that holds a script opener comes back rewritten, and a
  completion whose title line is followed by a second, non-blank line still matches, with
  a title of two lines.
\<close>

theorem parse_llm_output_counterexample:
  "match_title_body ''<script>alert(1)</script>'' = None
   \<and> parse_llm_output ''Original'' ''<script>alert(1)</script>''
       = (''Original'', ''&lt;script>alert(1)</script>'')
   \<and> parse_llm_output ''Original'' (''TITLE: a'' @ CHR 0x0A # ''b'' @ CHR 0x0A # CHR 0x0A # ''c'')
       = (''a'' @ CHR 0x0A # ''b'', ''c'')"
  by code_simp


section \<open>The processed-link set\<close>

text \<open>
  Claim C8 says that every run keeps the normalized \<open>source_url\<close> of every archived article
  in the processed-link set.  A feed entry whose link has a space before the query string
  breaks it: \<open>normalize_url\<close> cuts the query and leaves the space at the end, that line is
  written to the processed file, and reading the file back strips the line, and with the
  space gone the trailing slash goes too.  The run below starts from an empty deployment,
  ends without error, archives one article and leaves a processed set that does not hold
  the normalized link of that article.
\<close>

theorem main_breaks_processed_invariant:
  "processed_invariant (demo_world None None None)
   \<and> fst (main (demo_env [demo_raw ''Fresh news'' ''https://example.com/a/ ?utm=1''] ''Body'')
              (demo_world None None None)) = None
   \<and> archived_links
         (snd (main (demo_env [demo_raw ''Fresh news'' ''https://example.com/a/ ?utm=1''] ''Body'')
                    (demo_world None None None)))
       = [''https://example.com/a/ '']
   \<and> load_processed
         (processed_file
            (snd (main (demo_env [demo_raw ''Fresh news'' ''https://example.com/a/ ?utm=1''] ''Body'')
                       (demo_world None None None))))
       = {''https://example.com/a''}
   \<and> \<not> processed_invariant
           (snd (main (demo_env [demo_raw ''Fresh news'' ''https://example.com/a/ ?utm=1''] ''Body'')
                      (demo_world None None None)))"
  by code_simp


subsection \<open>What holds of the processed-link set\<close>

text \<open>
  Marking a link is a no-op when its normalized form is present, the set \<open>load_processed\<close>
  reads never shrinks, a run puts the new article at the front of the archive, and the
  invariant survives every run whose candidate has a link without whitespace.
\<close>

lemma links_of_simps:
  "links_of [] = {}"
  "links_of (l # ls) = (if str_strip l \<noteq> [] then insert (normalize_url l) (links_of ls) else links_of ls)"
  "links_of (a @ b) = links_of a \<union> links_of b"
  by (auto simp: links_of_def)

lemma load_processed_links: "load_processed f = links_of (splitlines_acc [] (read_text f))"
  by (simp add: load_processed_def links_of_def str_splitlines_def)

lemma linebreak_space: "is_linebreak c \<Longrightarrow> py_isspace c"
  by (auto simp: is_linebreak_def py_isspace_def Let_def)

lemma cr_space: "py_isspace (CHR 0x0D)" and lf_break: "is_linebreak (CHR 0x0A)"
  and cr_break: "is_linebreak (CHR 0x0D)"
  by (simp_all add: py_isspace_def is_linebreak_def)

lemma rstrip_snoc: "py_isspace c \<Longrightarrow> str_rstrip (x @ [c]) = str_rstrip x"
  by (simp add: str_rstrip_def)

lemma lstrip_all_space: "\<forall>c\<in>set x. py_isspace c \<Longrightarrow> str_lstrip x = []"
  by (simp add: str_lstrip_def)

lemma strip_snoc: "py_isspace c \<Longrightarrow> str_strip (x @ [c]) = str_strip x"
proof (cases "\<forall>c\<in>set x. py_isspace c")
  case True
  assume "py_isspace c"
  then have "\<forall>d\<in>set (x @ [c]). py_isspace d" using True by auto
  then have "str_lstrip (x @ [c]) = []" by (rule lstrip_all_space)
  moreover have "str_lstrip x = []" using True by (rule lstrip_all_space)
  ultimately show ?thesis by (simp add: str_strip_def)
next
  case False
  assume c: "py_isspace c"
  from False have "str_lstrip (x @ [c]) = str_lstrip x @ [c]"
    by (auto simp: str_lstrip_def dropWhile_append)
  then show ?thesis using c by (simp add: str_strip_def rstrip_snoc)
qed

lemma normalize_snoc: "py_isspace c \<Longrightarrow> normalize_url (x @ [c]) = normalize_url x"
  by (simp add: normalize_url_def strip_snoc)

lemma links_of_snoc_line:
  "py_isspace c \<Longrightarrow> links_of [x @ [c]] = links_of [x]"
  by (simp add: links_of_simps strip_snoc normalize_snoc)

lemma links_of_blank: "links_of [[]] = {}"
  by (simp add: links_of_simps str_strip_def str_lstrip_def str_rstrip_def)

lemma links_of_Cons: "links_of (l # ls) = links_of [l] \<union> links_of ls"
  using links_of_simps(3)[of "[l]" ls] by simp

lemma sl_Nil: "links_of (splitlines_acc cur []) = links_of [cur]"
  by (simp add: links_of_blank links_of_simps(1))

lemma sl_crlf:
  "splitlines_acc cur (CHR 0x0D # CHR 0x0A # r) = cur # splitlines_acc [] r"
  by simp

lemma sl_break:
  "is_linebreak c \<Longrightarrow> \<not> (c = CHR 0x0D \<and> r \<noteq> [] \<and> hd r = CHR 0x0A) \<Longrightarrow>
   splitlines_acc cur (c # r) = cur # splitlines_acc [] r"
  by auto

lemma sl_char: "\<not> is_linebreak c \<Longrightarrow> splitlines_acc cur (c # r) = splitlines_acc (cur @ [c]) r"
  using cr_break by auto

text \<open>Whitespace behind the text of a file adds no link.\<close>

lemma links_of_spaces:
  "\<forall>c\<in>set w. py_isspace c \<Longrightarrow> links_of (splitlines_acc cur w) = links_of [cur]"
proof (induction cur w rule: splitlines_acc.induct)
  case (1 cur)
  show ?case by (rule sl_Nil)
next
  case (2 cur c cs)
  have c: "py_isspace c" and cs: "\<forall>c\<in>set cs. py_isspace c" using 2(4) by simp_all
  show ?case
  proof (cases "c = CHR 0x0D \<and> cs \<noteq> [] \<and> hd cs = CHR 0x0A")
    case True
    then obtain r where r: "cs = CHR 0x0A # r" by (cases cs) auto
    then have "\<forall>c\<in>set (tl cs). py_isspace c" using cs by simp
    from 2(1)[OF True this] have "links_of (splitlines_acc [] r) = {}"
      using r by (simp add: links_of_blank)
    moreover have "splitlines_acc cur (c # cs) = cur # splitlines_acc [] r"
      using True r by (simp only: sl_crlf)
    ultimately show ?thesis using links_of_Cons[of cur "splitlines_acc [] r"] by simp
  next
    case False
    show ?thesis
    proof (cases "is_linebreak c")
      case True
      from 2(2)[OF False True cs] have "links_of (splitlines_acc [] cs) = {}"
        by (simp add: links_of_blank)
      moreover have "splitlines_acc cur (c # cs) = cur # splitlines_acc [] cs"
        using True False by (rule sl_break)
      ultimately show ?thesis using links_of_Cons[of cur "splitlines_acc [] cs"] by simp
    next
      case nb: False
      from 2(3)[OF False nb cs]
      have "links_of (splitlines_acc (cur @ [c]) cs) = links_of [cur @ [c]]" .
      moreover have "splitlines_acc cur (c # cs) = splitlines_acc (cur @ [c]) cs"
        using nb by (rule sl_char)
      ultimately show ?thesis using links_of_snoc_line[OF c, of cur] by simp
    qed
  qed
qed

lemma links_of_trailing_spaces:
  "\<forall>c\<in>set w. py_isspace c \<Longrightarrow>
   links_of (splitlines_acc cur (a @ w)) = links_of (splitlines_acc cur a)"
proof (induction cur a rule: splitlines_acc.induct)
  case (1 cur)
  then show ?case by (simp only: append_Nil sl_Nil links_of_spaces)
next
  case (2 cur c cs)
  note w = 2(4)
  show ?case
  proof (cases "c = CHR 0x0D \<and> cs \<noteq> [] \<and> hd cs = CHR 0x0A")
    case True
    then obtain r where r: "cs = CHR 0x0A # r" by (cases cs) auto
    from 2(1)[OF True w] have "links_of (splitlines_acc [] (r @ w)) = links_of (splitlines_acc [] r)"
      using r by simp
    moreover have "splitlines_acc cur ((c # cs) @ w) = cur # splitlines_acc [] (r @ w)"
      using True r by (simp only: sl_crlf append_Cons)
    moreover have "splitlines_acc cur (c # cs) = cur # splitlines_acc [] r"
      using True r by (simp only: sl_crlf)
    ultimately show ?thesis
      using links_of_Cons[of cur "splitlines_acc [] r"]
        links_of_Cons[of cur "splitlines_acc [] (r @ w)"] by simp
  next
    case False
    show ?thesis
    proof (cases "is_linebreak c")
      case True
      have a: "splitlines_acc cur (c # cs) = cur # splitlines_acc [] cs"
        using True False by (rule sl_break)
      from 2(2)[OF False True w]
      have ih: "links_of (splitlines_acc [] (cs @ w)) = links_of (splitlines_acc [] cs)" .
      show ?thesis
      proof (cases "c = CHR 0x0D \<and> cs @ w \<noteq> [] \<and> hd (cs @ w) = CHR 0x0A")
        case crlf: True
        with False have cs: "cs = []" by (cases cs) auto
        with crlf obtain r where r: "w = CHR 0x0A # r" by (cases w) auto
        then have "\<forall>c\<in>set r. py_isspace c" using w by simp
        then have "links_of (splitlines_acc [] r) = {}"
          using links_of_spaces[of r "[]"] by (simp add: links_of_blank)
        moreover have "splitlines_acc cur ((c # cs) @ w) = cur # splitlines_acc [] r"
          using crlf cs r by (simp only: sl_crlf append_Cons append_Nil)
        moreover have "links_of (splitlines_acc [] cs) = {}"
          using cs by (simp add: links_of_simps(1))
        ultimately show ?thesis unfolding a
          using links_of_Cons[of cur "splitlines_acc [] r"]
            links_of_Cons[of cur "splitlines_acc [] cs"] by simp
      next
        case nocrlf: False
        have "splitlines_acc cur (c # (cs @ w)) = cur # splitlines_acc [] (cs @ w)"
          using True nocrlf by (rule sl_break)
        then show ?thesis unfolding a
          using ih links_of_Cons[of cur "splitlines_acc [] (cs @ w)"]
            links_of_Cons[of cur "splitlines_acc [] cs"] by simp
      qed
    next
      case nb: False
      from 2(3)[OF False nb w]
      have "links_of (splitlines_acc (cur @ [c]) (cs @ w))
            = links_of (splitlines_acc (cur @ [c]) cs)" .
      moreover have "splitlines_acc cur ((c # cs) @ w) = splitlines_acc (cur @ [c]) (cs @ w)"
        using sl_char[OF nb, of cur "cs @ w"] by simp
      moreover have "splitlines_acc cur (c # cs) = splitlines_acc (cur @ [c]) cs"
        using nb by (rule sl_char)
      ultimately show ?thesis by (simp only:)
    qed
  qed
qed

lemma lf_not_cr: "CHR 0x0A \<noteq> CHR 0x0D"
  by simp

lemma sl_append_lf:
  "a = [] \<or> last a \<noteq> CHR 0x0D \<Longrightarrow>
   splitlines_acc cur (a @ CHR 0x0A # b) = splitlines_acc cur (a @ [CHR 0x0A]) @ splitlines_acc [] b"
proof (induction cur a rule: splitlines_acc.induct)
  case (1 cur)
  have "splitlines_acc cur (CHR 0x0A # b) = cur # splitlines_acc [] b"
    using lf_break by (rule sl_break) simp
  moreover have "splitlines_acc cur [CHR 0x0A] = cur # splitlines_acc [] []"
    using lf_break by (rule sl_break) simp
  ultimately show ?case by simp
next
  case (2 cur c cs)
  show ?case
  proof (cases "c = CHR 0x0D \<and> cs \<noteq> [] \<and> hd cs = CHR 0x0A")
    case True
    then obtain r where r: "cs = CHR 0x0A # r" by (cases cs) auto
    have "tl cs = [] \<or> last (tl cs) \<noteq> CHR 0x0D" using 2(4) r by (cases r) auto
    from 2(1)[OF True this]
    have "splitlines_acc [] (r @ CHR 0x0A # b)
          = splitlines_acc [] (r @ [CHR 0x0A]) @ splitlines_acc [] b" using r by simp
    moreover have "splitlines_acc cur ((c # cs) @ CHR 0x0A # b)
                   = cur # splitlines_acc [] (r @ CHR 0x0A # b)"
      using True r by (simp only: sl_crlf append_Cons)
    moreover have "splitlines_acc cur ((c # cs) @ [CHR 0x0A])
                   = cur # splitlines_acc [] (r @ [CHR 0x0A])"
      using True r by (simp only: sl_crlf append_Cons)
    ultimately show ?thesis by (simp only: append_Cons)
  next
    case False
    have cs: "cs = [] \<or> last cs \<noteq> CHR 0x0D" using 2(4) by (cases cs) auto
    have nocr: "cs = [] \<Longrightarrow> c \<noteq> CHR 0x0D" using 2(4) by auto
    show ?thesis
    proof (cases "is_linebreak c")
      case True
      have n: "\<not> (c = CHR 0x0D \<and> cs @ x \<noteq> [] \<and> hd (cs @ x) = CHR 0x0A)" for x
        using False nocr by (cases cs) auto
      have "splitlines_acc cur (c # (cs @ CHR 0x0A # b)) = cur # splitlines_acc [] (cs @ CHR 0x0A # b)"
        using True n by (rule sl_break)
      moreover have "splitlines_acc cur (c # (cs @ [CHR 0x0A])) = cur # splitlines_acc [] (cs @ [CHR 0x0A])"
        using True n by (rule sl_break)
      moreover note 2(2)[OF False True cs]
      ultimately show ?thesis by (simp only: append_Cons)
    next
      case nb: False
      have "splitlines_acc cur (c # (cs @ CHR 0x0A # b))
            = splitlines_acc (cur @ [c]) (cs @ CHR 0x0A # b)"
        using nb by (rule sl_char)
      moreover have "splitlines_acc cur (c # (cs @ [CHR 0x0A]))
                     = splitlines_acc (cur @ [c]) (cs @ [CHR 0x0A])"
        using nb by (rule sl_char)
      moreover note 2(3)[OF False nb cs]
      ultimately show ?thesis by (simp only: append_Cons)
    qed
  qed
qed

lemma rstrip_split: "\<exists>w. s = str_rstrip s @ w \<and> (\<forall>c\<in>set w. py_isspace c)"
proof (intro exI conjI)
  show "s = str_rstrip s @ rev (takeWhile py_isspace (rev s))"
  proof -
    have "rev s = takeWhile py_isspace (rev s) @ dropWhile py_isspace (rev s)" by simp
    then have "rev (rev s) = rev (takeWhile py_isspace (rev s) @ dropWhile py_isspace (rev s))"
      by (simp only:)
    then have "s = rev (dropWhile py_isspace (rev s)) @ rev (takeWhile py_isspace (rev s))"
      by (simp only: rev_rev_ident rev_append)
    then show ?thesis by (simp only: str_rstrip_def)
  qed
  show "\<forall>c\<in>set (rev (takeWhile py_isspace (rev s))). py_isspace c"
    by (auto dest: set_takeWhileD)
qed

lemma rstrip_last: "str_rstrip s \<noteq> [] \<Longrightarrow> \<not> py_isspace (last (str_rstrip s))"
proof -
  assume "str_rstrip s \<noteq> []"
  then have "dropWhile py_isspace (rev s) \<noteq> []" by (simp add: str_rstrip_def)
  then have "\<not> py_isspace (hd (dropWhile py_isspace (rev s)))" by (rule hd_dropWhile)
  then show ?thesis
    using \<open>dropWhile py_isspace (rev s) \<noteq> []\<close> by (simp add: str_rstrip_def last_rev)
qed

lemma strip_empty_iff: "str_strip s = [] \<longleftrightarrow> (\<forall>c\<in>set s. py_isspace c)"
proof
  assume "str_strip s = []"
  then have a: "\<forall>x\<in>set (dropWhile py_isspace s). py_isspace x"
    by (simp add: str_strip_def str_rstrip_def str_lstrip_def dropWhile_eq_Nil_conv)
  have "dropWhile py_isspace s = []"
  proof (rule ccontr)
    assume n: "dropWhile py_isspace s \<noteq> []"
    then have "\<not> py_isspace (hd (dropWhile py_isspace s))" by (rule hd_dropWhile)
    moreover have "hd (dropWhile py_isspace s) \<in> set (dropWhile py_isspace s)"
      using n by (rule hd_in_set)
    ultimately show False using a by blast
  qed
  then show "\<forall>c\<in>set s. py_isspace c" by (simp add: dropWhile_eq_Nil_conv)
next
  assume "\<forall>c\<in>set s. py_isspace c"
  then show "str_strip s = []"
    by (auto simp: str_strip_def str_rstrip_def str_lstrip_def dest: set_dropWhileD)
qed

text \<open>What \<open>append_processed\<close> does to the set \<open>load_processed\<close> reads.\<close>

lemma load_after_append:
  assumes "normalize_url u \<notin> load_processed f"
  shows "load_processed (append_processed u f)
         = load_processed f \<union> links_of (splitlines_acc [] (normalize_url u))"
proof -
  let ?s = "read_text f" and ?url = "normalize_url u" and ?lf = "CHR 0x0A"
  let ?a = "str_rstrip ?s"
  obtain w where w: "?s = ?a @ w" "\<forall>c\<in>set w. py_isspace c" using rstrip_split by blast
  have lfw: "\<forall>c\<in>set [?lf]. py_isspace c" using lf_space by simp
  have "links_of (splitlines_acc [] (?a @ w)) = links_of (splitlines_acc [] ?a)"
    using w(2) by (rule links_of_trailing_spaces)
  then have old: "load_processed f = links_of (splitlines_acc [] ?a)"
    unfolding load_processed_links by (simp only: w(1)[symmetric])
  have new_url: "links_of (splitlines_acc [] (?url @ [?lf])) = links_of (splitlines_acc [] ?url)"
    using lfw by (rule links_of_trailing_spaces)
  show ?thesis
  proof (cases "?a = []")
    case True
    have "str_strip [] = []" by (simp add: str_strip_def str_lstrip_def str_rstrip_def)
    then have "append_processed u f = Some (?url @ [?lf])"
      using assms True by (simp add: append_processed_def Let_def)
    moreover have "load_processed f = {}" using old True by (simp add: links_of_simps(1))
    ultimately show ?thesis using new_url by (simp add: load_processed_links read_text_def)
  next
    case False
    then have l: "\<not> py_isspace (last ?a)" by (rule rstrip_last)
    then have "\<not> (\<forall>c\<in>set ?a. py_isspace c)" using False last_in_set by blast
    then have "str_strip ?a \<noteq> []" by (simp add: strip_empty_iff)
    then have ap: "append_processed u f = Some (?a @ ?lf # (?url @ [?lf]))"
      using assms by (simp add: append_processed_def Let_def)
    have "last ?a \<noteq> CHR 0x0D" using l cr_space by auto
    then have "splitlines_acc [] (?a @ ?lf # (?url @ [?lf]))
               = splitlines_acc [] (?a @ [?lf]) @ splitlines_acc [] (?url @ [?lf])"
      by (intro sl_append_lf) simp
    moreover have "links_of (splitlines_acc [] (?a @ [?lf])) = links_of (splitlines_acc [] ?a)"
      using lfw by (rule links_of_trailing_spaces)
    ultimately show ?thesis
      unfolding ap using old new_url
      by (simp add: load_processed_links read_text_def links_of_simps(3))
  qed
qed

lemma append_processed_noop:
  "normalize_url u \<in> load_processed f \<Longrightarrow> append_processed u f = f"
  by (simp add: append_processed_def Let_def)

lemma load_processed_grows: "load_processed f \<subseteq> load_processed (append_processed u f)"
proof (cases "normalize_url u \<in> load_processed f")
  case True
  then show ?thesis by (simp add: append_processed_noop)
next
  case False
  then show ?thesis by (simp add: load_after_append)
qed

lemma sub_query_plain:
  "CHR 0x0A \<notin> set s \<Longrightarrow> sub_query s = takeWhile (\<lambda>c. c \<noteq> CHR ''?'' \<and> c \<noteq> CHR ''#'') s"
proof (induction s)
  case Nil
  then show ?case by simp
next
  case (Cons c cs)
  then have "dropWhile (\<lambda>x. x \<noteq> CHR 0x0A) cs = []" by auto
  then show ?case using Cons by (simp add: Let_def)
qed

lemma rstrip_chars_prefix: "prefix (str_rstrip_chars cs s) s"
proof -
  have "suffix (dropWhile (\<lambda>c. c \<in> set cs) (rev s)) (rev s)" by (rule suffix_dropWhile)
  then have "prefix (rev (dropWhile (\<lambda>c. c \<in> set cs) (rev s))) (rev (rev s))"
    by (simp only: suffix_to_prefix)
  then show ?thesis by (simp add: str_rstrip_chars_def)
qed

lemma rstrip_chars_idem: "str_rstrip_chars cs (str_rstrip_chars cs s) = str_rstrip_chars cs s"
  by (simp add: str_rstrip_chars_def)

text \<open>On a link without whitespace \<open>normalize_url\<close> is idempotent and leaves no whitespace.\<close>

lemma normalize_clean:
  assumes "\<forall>c\<in>set u. \<not> py_isspace c"
  shows "\<forall>c\<in>set (normalize_url u). \<not> py_isspace c"
    and "normalize_url (normalize_url u) = normalize_url u"
proof -
  let ?P = "\<lambda>c. c \<noteq> CHR ''?'' \<and> c \<noteq> CHR ''#''"
  have strip: "str_strip x = x" if "\<forall>c\<in>set x. \<not> py_isspace c" for x
  proof (cases "x = []")
    case True
    then show ?thesis by (simp add: str_strip_def str_lstrip_def str_rstrip_def)
  next
    case False
    then show ?thesis using that by (intro strip_id) simp_all
  qed
  have nolf: "CHR 0x0A \<notin> set x" if "\<forall>c\<in>set x. \<not> py_isspace c" for x
    using that lf_space by auto
  have n: "normalize_url u = str_rstrip_chars ''/'' (takeWhile ?P u)"
    using strip[OF assms] sub_query_plain[OF nolf[OF assms]] by (simp add: normalize_url_def)
  have sub: "set (normalize_url u) \<subseteq> set (takeWhile ?P u)"
    unfolding n using rstrip_chars_prefix[of "''/''" "takeWhile ?P u"] by (rule set_mono_prefix)
  then have sub2: "set (normalize_url u) \<subseteq> set u" using set_takeWhileD by fastforce
  show clean: "\<forall>c\<in>set (normalize_url u). \<not> py_isspace c" using sub2 assms by blast
  define v where "v = normalize_url u"
  have cv: "\<forall>c\<in>set v. \<not> py_isspace c" using clean by (simp add: v_def)
  have "\<forall>c\<in>set v. ?P c" unfolding v_def using sub set_takeWhileD by fastforce
  then have tw: "takeWhile ?P v = v" by (simp add: takeWhile_eq_all_conv)
  have "normalize_url v = str_rstrip_chars ''/'' (sub_query (str_strip v))"
    by (simp only: normalize_url_def)
  also have "\<dots> = str_rstrip_chars ''/'' (sub_query v)" by (simp only: strip[OF cv])
  also have "\<dots> = str_rstrip_chars ''/'' v"
    by (simp only: sub_query_plain[OF nolf[OF cv]] tw)
  also have "\<dots> = v" unfolding v_def n by (rule rstrip_chars_idem)
  finally show "normalize_url (normalize_url u) = normalize_url u" by (simp only: v_def)
qed

lemma sl_plain:
  "\<forall>c\<in>set x. \<not> is_linebreak c \<Longrightarrow> x \<noteq> [] \<Longrightarrow> splitlines_acc cur x = [cur @ x]"
proof (induction x arbitrary: cur)
  case Nil
  then show ?case by simp
next
  case (Cons c x)
  then have nb: "\<not> is_linebreak c" by simp
  show ?case
  proof (cases "x = []")
    case True
    then show ?thesis using sl_char[OF nb, of cur "[]"] by simp
  next
    case False
    with Cons have "splitlines_acc (cur @ [c]) x = [(cur @ [c]) @ x]" by simp
    then show ?thesis using sl_char[OF nb, of cur x] by simp
  qed
qed

lemma append_processed_member:
  assumes "\<forall>c\<in>set u. \<not> py_isspace c" and "normalize_url u \<noteq> []"
  shows "normalize_url u \<in> load_processed (append_processed u f)"
proof (cases "normalize_url u \<in> load_processed f")
  case True
  then show ?thesis by (simp add: append_processed_noop)
next
  case False
  let ?url = "normalize_url u"
  note c = normalize_clean[OF assms(1)]
  have "\<forall>c\<in>set ?url. \<not> is_linebreak c" using c(1) linebreak_space by blast
  then have "splitlines_acc [] ?url = [?url]" using assms(2) sl_plain[of ?url "[]"] by simp
  moreover have "str_strip ?url \<noteq> []" using c(1) assms(2)
    by (auto simp: strip_empty_iff)
  ultimately have "links_of (splitlines_acc [] ?url) = {?url}"
    using c(2) by (simp add: links_of_simps)
  then show ?thesis using load_after_append[OF False] by simp
qed

lemma annotate_link: "dict_get (annotate_entry e) ''link'' d = dict_get e ''link'' d"
  by (simp add: annotate_entry_def dict_get_def Let_def update_conv)

lemma consider_Some:
  "consider_entry kws P pt e = Some c \<Longrightarrow>
   c = annotate_entry e \<and> normalize_url (dict_get e ''link'' []) \<noteq> []"
  by (auto simp: consider_entry_def Let_def split: if_splits)

lemma scan_entries_links:
  "\<forall>c\<in>set cands. normalize_url (dict_get c ''link'' []) \<noteq> [] \<Longrightarrow>
   \<forall>c\<in>set (scan_entries kws P pt cands es). normalize_url (dict_get c ''link'' []) \<noteq> []"
proof (induction es arbitrary: cands)
  case Nil
  then show ?case by simp
next
  case (Cons e es)
  show ?case
  proof (cases "consider_entry kws P pt e")
    case None
    then show ?thesis using Cons by simp
  next
    case (Some c)
    then have "normalize_url (dict_get c ''link'' []) \<noteq> []"
      using consider_Some[OF Some] by (simp add: annotate_link)
    then have "\<forall>c\<in>set (cands @ [c]). normalize_url (dict_get c ''link'' []) \<noteq> []"
      using Cons.prems by simp
    from Cons.IH[OF this] show ?thesis using Some by simp
  qed
qed

lemma scan_feeds_links:
  "scan_feeds ev kws P pt cands feeds = Inr cs \<Longrightarrow>
   \<forall>c\<in>set cands. normalize_url (dict_get c ''link'' []) \<noteq> [] \<Longrightarrow>
   \<forall>c\<in>set cs. normalize_url (dict_get c ''link'' []) \<noteq> []"
proof (induction feeds arbitrary: cands)
  case Nil
  then show ?case by simp
next
  case (Cons f feeds)
  from Cons.prems(1) obtain es where es: "fetch_rss_entries ev f = Inr es"
    and r: "scan_feeds ev kws P pt (scan_entries kws P pt cands es) feeds = Inr cs"
    by (auto split: sum.splits)
  from Cons.IH[OF r scan_entries_links[OF Cons.prems(2)]] show ?case .
qed

lemma pick_candidate_link:
  assumes "pick_candidate ev cfg P A = Inr (Some cand)"
  shows "normalize_url (dict_get cand ''link'' []) \<noteq> []"
proof -
  let ?kws = "case safety_blocked_keywords cfg of None \<Rightarrow> [] | Some l \<Rightarrow> l"
  let ?rss = "case feeds_reddit_rss cfg of None \<Rightarrow> [] | Some l \<Rightarrow> l"
  let ?pt = "map simple_tokens (filter (\<lambda>t. t \<noteq> []) (map (\<lambda>a. dict_get a ''title'' []) A))"
  have ne: "?rss \<noteq> []"
    using assms by (auto simp: pick_candidate_def Let_def)
  with assms have
    a: "(case scan_feeds ev ?kws P ?pt [] ?rss of
           Inl err \<Rightarrow> Inl err
         | Inr candidates \<Rightarrow>
             (case candidates of
                [] \<Rightarrow> Inr None
              | c # cs \<Rightarrow>
                  if generation_pick_random cfg
                  then Inr (Some (candidates ! (random_index ev mod length candidates)))
                  else Inr (Some c))) = Inr (Some cand)"
    by (simp add: pick_candidate_def Let_def)
  then obtain cs where cs: "scan_feeds ev ?kws P ?pt [] ?rss = Inr cs"
    by (cases "scan_feeds ev ?kws P ?pt [] ?rss") auto
  with a obtain x xs where x: "cs = x # xs" by (cases cs) auto
  have c: "cand \<in> set cs"
  proof (cases "generation_pick_random cfg")
    case True
    with a cs x have "cand = cs ! (random_index ev mod length cs)" by simp
    moreover have "random_index ev mod length cs < length cs" using x by simp
    ultimately show ?thesis by (simp only: nth_mem)
  next
    case False
    with a cs x show ?thesis by simp
  qed
  from scan_feeds_links[OF cs] c show ?thesis by simp
qed

lemma log_event_files [simp]:
  "processed_file (log_event e w) = processed_file w"
  "articles_file (log_event e w) = articles_file w"
  by (simp_all add: log_event_def)

lemma build_site_files [simp]:
  "processed_file (snd (build_site ev d a w)) = processed_file w"
  "articles_file (snd (build_site ev d a w)) = articles_file w"
  by (simp_all add: build_site_def Let_def split: option.splits)

lemma write_last_run_files [simp]:
  "processed_file (snd (write_last_run ev cfg r w)) = processed_file w"
  "articles_file (snd (write_last_run ev cfg r w)) = articles_file w"
  by (simp_all add: write_last_run_def split: option.splits)

lemma write_flag_files [simp]:
  "processed_file (write_flag ev w) = processed_file w"
  "articles_file (write_flag ev w) = articles_file w"
  by (simp_all add: write_flag_def)

lemma finish_run_files [simp]:
  "processed_file (snd (finish_run ev cfg d a r w)) = processed_file w"
  "articles_file (snd (finish_run ev cfg d a r w)) = articles_file w"
proof -
  obtain e1 w1 where b: "build_site ev d a w = (e1, w1)" by (cases "build_site ev d a w")
  then have f1: "processed_file w1 = processed_file w" "articles_file w1 = articles_file w"
    using build_site_files[of ev d a w] by simp_all
  obtain e2 w2 where l: "write_last_run ev cfg r w1 = (e2, w2)"
    by (cases "write_last_run ev cfg r w1")
  then have f2: "processed_file w2 = processed_file w1" "articles_file w2 = articles_file w1"
    using write_last_run_files[of ev cfg r w1] by simp_all
  show "processed_file (snd (finish_run ev cfg d a r w)) = processed_file w"
    "articles_file (snd (finish_run ev cfg d a r w)) = articles_file w"
    using b l f1 f2 by (auto simp: finish_run_def split: option.splits)
qed

lemma main_files:
  "(processed_file (snd (main ev w)) = processed_file w
      \<and> articles_file (snd (main ev w)) = articles_file w)
   \<or> (\<exists>cfg cand llm_title body.
         config_file w = Some cfg
         \<and> pick_candidate ev cfg (load_processed (processed_file w))
              (case articles_file w of None \<Rightarrow> [] | Some l \<Rightarrow> l) = Inr (Some cand)
         \<and> processed_file (snd (main ev w))
             = append_processed (dict_get cand ''link'' []) (processed_file w)
         \<and> articles_file (snd (main ev w))
             = Some (snd (make_article ev cand llm_title body)
                     # (case articles_file w of None \<Rightarrow> [] | Some l \<Rightarrow> l)))"
proof -
  have fin: "(case build_site ev d a w' of
                (Some err, w) \<Rightarrow> (Some err, w)
              | (None, w) \<Rightarrow>
                  (case write_last_run ev cfg r w of
                     (Some err, w) \<Rightarrow> (Some err, w)
                   | (None, w) \<Rightarrow> (None, write_flag ev w))) = finish_run ev cfg d a r w'"
    for d a w' cfg r
    by (simp add: finish_run_def)
  show ?thesis
    unfolding main_def Let_def fin
    by (auto simp: case_prod_beta split: option.splits sum.splits)
qed


lemma make_article_source:
  "dict_get (snd (make_article ev cand t b)) ''source_url'' [] = dict_get cand ''link'' []"
  by (simp add: make_article_def Let_def dict_get_def)

text \<open>
  A run whose candidate has a link without whitespace keeps the invariant of the
  processed-link set.
\<close>

lemma main_keeps_invariant:
  assumes inv: "processed_invariant w"
    and clean: "\<And>cfg cand. config_file w = Some cfg \<Longrightarrow>
       pick_candidate ev cfg (load_processed (processed_file w))
          (case articles_file w of None \<Rightarrow> [] | Some l \<Rightarrow> l) = Inr (Some cand) \<Longrightarrow>
       \<forall>c\<in>set (dict_get cand ''link'' []). \<not> py_isspace c"
  shows "processed_invariant (snd (main ev w))"
proof -
  let ?w' = "snd (main ev w)"
  let ?arts = "case articles_file w of None \<Rightarrow> [] | Some l \<Rightarrow> l"
  from main_files[of ev w] show ?thesis
  proof
    assume "processed_file ?w' = processed_file w \<and> articles_file ?w' = articles_file w"
    then show ?thesis using inv by (simp add: processed_invariant_def archived_links_def)
  next
    assume "\<exists>cfg cand llm_title body.
         config_file w = Some cfg
         \<and> pick_candidate ev cfg (load_processed (processed_file w)) ?arts = Inr (Some cand)
         \<and> processed_file ?w' = append_processed (dict_get cand ''link'' []) (processed_file w)
         \<and> articles_file ?w' = Some (snd (make_article ev cand llm_title body) # ?arts)"
    then obtain cfg cand t b where c: "config_file w = Some cfg"
      and p: "pick_candidate ev cfg (load_processed (processed_file w)) ?arts = Inr (Some cand)"
      and pf: "processed_file ?w' = append_processed (dict_get cand ''link'' []) (processed_file w)"
      and af: "articles_file ?w' = Some (snd (make_article ev cand t b) # ?arts)"
      by blast
    let ?link = "dict_get cand ''link'' []"
    have "normalize_url ?link \<in> load_processed (append_processed ?link (processed_file w))"
      using clean[OF c p] pick_candidate_link[OF p] by (rule append_processed_member)
    moreover have "list_all (\<lambda>l. l \<in> load_processed (append_processed ?link (processed_file w)))
                     (map (\<lambda>a. normalize_url (dict_get a ''source_url'' [])) ?arts)"
      using inv load_processed_grows[of "processed_file w" ?link]
      by (auto simp: processed_invariant_def archived_links_def list_all_iff)
    ultimately show ?thesis
      by (simp add: processed_invariant_def archived_links_def pf af make_article_source)
  qed
qed

end
